theory Spec2Isabelle
  imports Main "HOL-Library.Word" "HOL-Library.Multiset"
begin

section \<open>Machine integers\<close>

text \<open>
  The C++ type \<open>unsigned\<close> is a 32-bit word: addition, subtraction and multiplication
  wrap around, comparisons are unsigned.
\<close>

type_synonym u32 = "32 word"

definition UINT_MAX :: u32 where
  "UINT_MAX = 4294967295"

text \<open>
  \<open>unsigned add = pow(size, e)\<close> computes the power in \<open>double\<close> and converts it to
  \<open>unsigned\<close>. A power below \<open>2 ^ 32\<close> is an exactly representable double and converts
  to itself. For a power outside the range of \<open>unsigned\<close> the conversion is undefined in
  C++; the value a platform produces there is the parameter \<open>cv\<close> of the model.
\<close>

definition pow_unsigned :: "(nat \<Rightarrow> u32) \<Rightarrow> u32 \<Rightarrow> nat \<Rightarrow> u32" where
  "pow_unsigned cv sz e =
     (if unat sz ^ e < 2 ^ 32 then word_of_nat (unat sz ^ e) else cv (unat sz ^ e))"

text \<open>
  One such platform behaviour, used in the examples: the value wraps around.
\<close>

definition wrap_conversion :: "nat \<Rightarrow> u32" where
  "wrap_conversion n = word_of_nat n"

section \<open>Finite model builder: propositional variable numbering\<close>

text \<open>
  The signature is given by the arities of its function symbols and of its predicate
  symbols; predicate \<open>0\<close> is equality and gets no block (the second loop of \<open>reset\<close>
  starts at \<open>p = 1\<close>).

  \<open>offsets_loop\<close> is the body shared by the two loops of
  \<open>FiniteModelBuilderNonIncremental::reset\<close>: the exponent is \<open>arity + 2\<close> in the loop
  over the functions and \<open>arity + 1\<close> in the loop over the predicates. The offsets
  written to \<open>f_offsets[f]\<close> (or \<open>p_offsets[p]\<close>) for increasing indices are collected
  in order. \<open>None\<close> is the early \<open>return false\<close>.
\<close>

fun offsets_loop ::
  "(nat \<Rightarrow> u32) \<Rightarrow> u32 \<Rightarrow> nat \<Rightarrow> nat list \<Rightarrow> u32 \<Rightarrow> u32 list \<Rightarrow> (u32 list \<times> u32) option"
where
  "offsets_loop cv sz k [] offsets written = Some (written, offsets)"
| "offsets_loop cv sz k (arity # rest) offsets written =
     (let add = pow_unsigned cv sz (arity + k) in
      if UINT_MAX - add < offsets then None
      else offsets_loop cv sz k rest (offsets + add) (written @ [offsets]))"

record numbering =
  f_offsets :: "u32 list"
  p_offsets :: "u32 list"
  maxOffset :: u32
  varCount :: u32

text \<open>
  \<open>reset cv sz fars pars p0\<close>: \<open>fars\<close> and \<open>pars\<close> are the arities of the functions and
  of the predicates (\<open>pars ! 0\<close> belongs to equality), \<open>p0\<close> is the content of
  \<open>p_offsets[0]\<close>, which \<open>reset\<close> never writes. On success the SAT solver is created and
  \<open>ensureVarCount (offsets + 1)\<close> is called; \<open>varCount\<close> records that argument.
\<close>

definition reset :: "(nat \<Rightarrow> u32) \<Rightarrow> u32 \<Rightarrow> nat list \<Rightarrow> nat list \<Rightarrow> u32 \<Rightarrow> numbering option" where
  "reset cv sz fars pars p0 =
     (case offsets_loop cv sz 2 fars 1 [] of
        None \<Rightarrow> None
      | Some (fo, offsets) \<Rightarrow>
          (case offsets_loop cv sz 1 (drop 1 pars) offsets [] of
             None \<Rightarrow> None
           | Some (po, offsets') \<Rightarrow>
               Some \<lparr>f_offsets = fo, p_offsets = p0 # po, maxOffset = offsets',
                     varCount = offsets' + 1\<rparr>))"

text \<open>
  The block reserved for a symbol is the gap between its offset and the offset of the
  next symbol in the order of \<open>reset\<close> (functions, then predicates from \<open>1\<close>); after the
  last symbol comes the final value of \<open>offsets\<close>.
\<close>

definition function_block :: "numbering \<Rightarrow> nat \<Rightarrow> u32" where
  "function_block r f =
     (f_offsets r @ drop 1 (p_offsets r) @ [maxOffset r]) ! Suc f - f_offsets r ! f"

definition predicate_block :: "numbering \<Rightarrow> nat \<Rightarrow> u32" where
  "predicate_block r p =
     (p_offsets r @ [maxOffset r]) ! Suc p - p_offsets r ! p"


subsection \<open>Block sizes\<close>



lemma offsets_loop_written:
  "offsets_loop cv sz k ars offsets written = Some (offs, tot) \<Longrightarrow>
   \<exists>xs. offs = written @ xs \<and> length xs = length ars \<and>
     (\<forall>i<length ars. (xs @ [tot]) ! Suc i - (xs @ [tot]) ! i = pow_unsigned cv sz (ars ! i + k)) \<and>
     (xs @ [tot]) ! 0 = offsets"
proof (induction ars arbitrary: offsets written)
  case Nil
  then show ?case by simp
next
  case (Cons a ars)
  from Cons.prems have ok: "\<not> UINT_MAX - pow_unsigned cv sz (a + k) < offsets"
    and rec: "offsets_loop cv sz k ars (offsets + pow_unsigned cv sz (a + k)) (written @ [offsets]) = Some (offs, tot)"
    by (auto simp: Let_def split: if_splits)
  from Cons.IH[OF rec] obtain ys where ys: "offs = (written @ [offsets]) @ ys" "length ys = length ars"
    "\<forall>i<length ars. (ys @ [tot]) ! Suc i - (ys @ [tot]) ! i = pow_unsigned cv sz (ars ! i + k)"
    "(ys @ [tot]) ! 0 = offsets + pow_unsigned cv sz (a + k)"
    by blast
  let ?xs = "offsets # ys"
  have "offs = written @ ?xs" using ys(1) by simp
  moreover have "length ?xs = length (a # ars)" using ys(2) by simp
  moreover have "\<forall>i<length (a # ars). (?xs @ [tot]) ! Suc i - (?xs @ [tot]) ! i = pow_unsigned cv sz ((a # ars) ! i + k)"
  proof (intro allI impI)
    fix i assume "i < length (a # ars)"
    show "(?xs @ [tot]) ! Suc i - (?xs @ [tot]) ! i = pow_unsigned cv sz ((a # ars) ! i + k)"
    proof (cases i)
      case 0
      then show ?thesis using ys(4) by simp
    next
      case (Suc j)
      then have "j < length ars" using \<open>i < length (a # ars)\<close> by simp
      then show ?thesis using ys(3) Suc by simp
    qed
  qed
  moreover have "(?xs @ [tot]) ! 0 = offsets" by simp
  ultimately show ?case by blast
qed

lemma pow_unsigned_in_range:
  "unat sz ^ e < 2 ^ 32 \<Longrightarrow> unat (pow_unsigned cv sz e) = unat sz ^ e"
  unfolding pow_unsigned_def
  by (simp del: of_nat_power add: unat_of_nat take_bit_nat_eq_self)

lemma reset_function_block:
  assumes "reset cv sz fars pars p0 = Some r" and "f < length fars"
  shows "function_block r f = pow_unsigned cv sz (fars ! f + 2)"
proof -
  from assms(1) obtain fo offsets po offsets' where
    l1: "offsets_loop cv sz 2 fars 1 [] = Some (fo, offsets)" and
    l2: "offsets_loop cv sz 1 (drop 1 pars) offsets [] = Some (po, offsets')" and
    r: "r = \<lparr>f_offsets = fo, p_offsets = p0 # po, maxOffset = offsets', varCount = offsets' + 1\<rparr>"
    by (auto simp: reset_def split: option.splits)
  from offsets_loop_written[OF l1] have fo: "length fo = length fars"
    "\<forall>i<length fars. (fo @ [offsets]) ! Suc i - (fo @ [offsets]) ! i = pow_unsigned cv sz (fars ! i + 2)"
    by auto
  from offsets_loop_written[OF l2] have po: "(po @ [offsets']) ! 0 = offsets"
    by auto
  have nxt: "(fo @ po @ [offsets']) ! Suc f = (fo @ [offsets]) ! Suc f"
  proof (cases "Suc f < length fo")
    case True
    then show ?thesis by (simp add: nth_append)
  next
    case False
    then have "Suc f = length fo" using assms(2) fo(1) by simp
    then show ?thesis using po by (simp add: nth_append)
  qed
  have "function_block r f = (fo @ [offsets]) ! Suc f - (fo @ [offsets]) ! f"
    using nxt assms(2) fo(1) by (simp add: function_block_def r nth_append)
  then show ?thesis using fo(2) assms(2) by simp
qed

lemma reset_predicate_block:
  assumes "reset cv sz fars pars p0 = Some r" and "0 < p" and "p < length pars"
  shows "predicate_block r p = pow_unsigned cv sz (pars ! p + 1)"
proof -
  from assms(1) obtain fo offsets po offsets' where
    l2: "offsets_loop cv sz 1 (drop 1 pars) offsets [] = Some (po, offsets')" and
    r: "r = \<lparr>f_offsets = fo, p_offsets = p0 # po, maxOffset = offsets', varCount = offsets' + 1\<rparr>"
    by (auto simp: reset_def split: option.splits)
  obtain q where q: "p = Suc q" using assms(2) by (cases p) auto
  from offsets_loop_written[OF l2] have po: "length po = length (drop 1 pars)"
    "\<forall>i<length (drop 1 pars). (po @ [offsets']) ! Suc i - (po @ [offsets']) ! i = pow_unsigned cv sz (drop 1 pars ! i + 1)"
    by auto
  have qlt: "q < length (drop 1 pars)" using assms(3) q by simp
  have "predicate_block r p = (po @ [offsets']) ! Suc q - (po @ [offsets']) ! q"
    using qlt po(1) by (simp add: predicate_block_def r q nth_append)
  also have "\<dots> = pow_unsigned cv sz (drop 1 pars ! q + 1)" using po(2) qlt by blast
  also have "drop 1 pars ! q = pars ! p" using assms(3) q by simp
  finally show ?thesis .
qed

text \<open>
  Claim C2 (as amended). Whenever \<open>reset\<close> succeeds at a model size, the block of a
  function symbol of arity \<open>a\<close> holds \<open>size ^ (a + 2)\<close> variables and the block of a
  predicate symbol \<open>p \<ge> 1\<close> of arity \<open>a\<close> holds \<open>size ^ (a + 1)\<close> variables, provided
  that power fits the 32-bit counter. (The exponent is one more than the
  \<open>a + 1\<close>, respectively \<open>a\<close>, that \<open>getSATLiteral\<close> addresses.)
\<close>

theorem reset_block_sizes:
  assumes "reset cv sz fars pars p0 = Some r"
  shows "(\<forall>f<length fars. unat sz ^ (fars ! f + 2) < 2 ^ 32 \<longrightarrow>
            unat (function_block r f) = unat sz ^ (fars ! f + 2)) \<and>
         (\<forall>p<length pars. 0 < p \<and> unat sz ^ (pars ! p + 1) < 2 ^ 32 \<longrightarrow>
            unat (predicate_block r p) = unat sz ^ (pars ! p + 1))"
  using reset_function_block[OF assms] reset_predicate_block[OF assms]
  by (simp add: pow_unsigned_in_range)

lemma reset_example:
  "reset wrap_conversion 2 [0] [0, 1] 0 =
     Some \<lparr>f_offsets = [1], p_offsets = [0, 5], maxOffset = 9, varCount = 10\<rparr>"
  by (simp add: reset_def pow_unsigned_def UINT_MAX_def Let_def)

theorem reset_block_sizes_witness:
  "reset wrap_conversion 2 [0] [0, 1] 0 =
     Some \<lparr>f_offsets = [1], p_offsets = [0, 5], maxOffset = 9, varCount = 10\<rparr> \<and>
   unat (function_block \<lparr>f_offsets = [1], p_offsets = [0, 5], maxOffset = 9, varCount = 10\<rparr> 0) = 4 \<and>
   unat (predicate_block \<lparr>f_offsets = [1], p_offsets = [0, 5], maxOffset = 9, varCount = 10\<rparr> 1) = 4"
  using reset_example reset_block_sizes[OF reset_example] by simp

text \<open>
  Claim C2 as stated fails: at size \<open>2\<close> a constant (arity \<open>0\<close>) gets a block of \<open>4\<close>
  variables, not \<open>2 ^ (0 + 1)\<close>, and a unary predicate gets \<open>4\<close>, not \<open>2 ^ 1\<close>.
\<close>

theorem reset_block_sizes_counterexample:
  "reset wrap_conversion 2 [0] [0, 1] 0 =
     Some \<lparr>f_offsets = [1], p_offsets = [0, 5], maxOffset = 9, varCount = 10\<rparr> \<and>
   unat (function_block \<lparr>f_offsets = [1], p_offsets = [0, 5], maxOffset = 9, varCount = 10\<rparr> 0)
     \<noteq> unat (2 :: u32) ^ (0 + 1) \<and>
   unat (predicate_block \<lparr>f_offsets = [1], p_offsets = [0, 5], maxOffset = 9, varCount = 10\<rparr> 1)
     \<noteq> unat (2 :: u32) ^ 1"
  using reset_example by (simp add: function_block_def predicate_block_def)



section \<open>Finite model builder: clauses and initialisation\<close>

text \<open>
  After flattening, every argument of a literal is a variable, and an equality is either
  \<open>x = y\<close> (a two-variable equality) or \<open>f(x\<^sub>1, \<dots>, x\<^sub>a) = y\<close>. A literal carries its
  polarity first; variables and symbols are numbers.
\<close>

datatype Literal =
    TwoVarEquality bool nat nat
  | FunctionEquality bool nat "nat list" nat
  | PredicateLiteral bool nat "nat list"

fun isPositive :: "Literal \<Rightarrow> bool" where
  "isPositive (TwoVarEquality pol x y) = pol"
| "isPositive (FunctionEquality pol f xs y) = pol"
| "isPositive (PredicateLiteral pol p xs) = pol"

fun isTwoVarEquality :: "Literal \<Rightarrow> bool" where
  "isTwoVarEquality (TwoVarEquality pol x y) = True"
| "isTwoVarEquality (FunctionEquality pol f xs y) = False"
| "isTwoVarEquality (PredicateLiteral pol p xs) = False"

fun isEquality :: "Literal \<Rightarrow> bool" where
  "isEquality (TwoVarEquality pol x y) = True"
| "isEquality (FunctionEquality pol f xs y) = True"
| "isEquality (PredicateLiteral pol p xs) = False"

text \<open>
  A clause is its literals together with its variable count (\<open>varCnt()\<close>, an \<open>unsigned\<close>).
\<close>

record Clause =
  literals :: "Literal list"
  varCnt :: u32

datatype error =
    AssertionViolation
  | RefutationFoundException Clause

text \<open>
  Modelled from the spec: \<open>MainLoop::isRefutation\<close> is not part of the sources at hand;
  the specification says that a flattened clause that is the empty clause is a refutation.
\<close>

definition isRefutation :: "Clause \<Rightarrow> bool" where
  "isRefutation c = (literals c = [])"

text \<open>
  The counting loop of \<open>init\<close>: it counts the leading literals that are positive
  two-variable equalities between different variables and stops at the first other literal.
\<close>

fun posEqs :: "Literal list \<Rightarrow> nat" where
  "posEqs [] = 0"
| "posEqs (TwoVarEquality pol x y # ls) = (if pol \<and> x \<noteq> y then Suc (posEqs ls) else 0)"
| "posEqs (l # ls) = 0"

record fmb_state =
  groundClauses :: "Clause list"
  clauses :: "Clause list"
  maxModelSize :: u32

text \<open>The constructor: no clauses, \<open>_maxModelSize = UINT_MAX\<close>.\<close>

definition fmb_initial :: fmb_state where
  "fmb_initial = \<lparr>groundClauses = [], clauses = [], maxModelSize = UINT_MAX\<rparr>"

text \<open>
  The body of the first loop of \<open>init\<close> for one flattened clause \<open>c\<close>; the lists
  \<open>_groundClauses\<close> and \<open>_clauses\<close> grow at the front (\<open>cons\<close>).
\<close>

definition init_clause :: "Clause \<Rightarrow> fmb_state \<Rightarrow> error + fmb_state" where
  "init_clause c st =
     (if isRefutation c then Inl (RefutationFoundException c)
      else if varCnt c = 0 then Inr (st\<lparr>groundClauses := c # groundClauses st\<rparr>)
      else
        (let st1 = st\<lparr>clauses := c # clauses st\<rparr> in
         if posEqs (literals c) = length (literals c) \<and> varCnt c < maxModelSize st1
         then Inr (st1\<lparr>maxModelSize := varCnt c\<rparr>)
         else Inr st1))"

fun init_loop :: "Clause list \<Rightarrow> fmb_state \<Rightarrow> error + fmb_state" where
  "init_loop [] st = Inr st"
| "init_loop (c # cs) st =
     (case init_clause c st of Inl e \<Rightarrow> Inl e | Inr st1 \<Rightarrow> init_loop cs st1)"

text \<open>
  \<open>init\<close> on the flattened clauses of the problem, in the order of the clause iterator.
  The later phases of \<open>init\<close> (splitting, renaming, sort inference, the bounds) do not
  assign \<open>_maxModelSize\<close>; with an incomplete option profile \<open>init\<close> returns at once.
\<close>

definition init :: "bool \<Rightarrow> Clause list \<Rightarrow> error + fmb_state" where
  "init complete cs = (if \<not> complete then Inr fmb_initial else init_loop cs fmb_initial)"

section \<open>Finite model builder: the main loop\<close>

datatype Status = SAT_SATISFIABLE | SAT_UNSATISFIABLE | SAT_UNKNOWN

datatype TerminationReason = SATISFIABLE | REFUTATION | UNKNOWN | TIME_LIMIT

text \<open>
  What \<open>runImpl\<close> reports on the standard output outside its debugging traces;
  \<open>ModelFound\<close> stands for the call of \<open>onModelFound\<close>.
\<close>

datatype message =
    DetectedMaximumModelSize u32
  | Trying u32
  | ModelFound u32
  | CheckedAllConstants
  | AllFurtherModelsUnsat
  | CannotRepresent

text \<open>
  The environment of a run: the option profile and the problem category, the signature,
  and two oracles indexed by the model size being tried: the reading of the deadline at
  the start of that iteration, and the answer of the SAT solver on the clauses generated
  for that size.
\<close>

record fmb_env =
  isComplete :: bool
  isEPR :: bool
  spider :: bool
  conversion :: "nat \<Rightarrow> u32"
  functionArities :: "nat list"
  predicateArities :: "nat list"
  p_offset0 :: u32
  timeLimitReached :: "u32 \<Rightarrow> bool"
  solve :: "u32 \<Rightarrow> Status"

definition env_reset :: "fmb_env \<Rightarrow> u32 \<Rightarrow> numbering option" where
  "env_reset E sz = reset (conversion E) sz (functionArities E) (predicateArities E) (p_offset0 E)"

lemma unat_succ_below_max: "m \<noteq> UINT_MAX \<Longrightarrow> unat (m + 1) = Suc (unat m)"
proof -
  assume "m \<noteq> UINT_MAX"
  moreover have "(- 1 :: u32) = 4294967295" by simp
  ultimately have "m \<noteq> - 1" by (metis UINT_MAX_def)
  then have "1 + m \<noteq> 0" by (simp add: add_eq_0_iff)
  then have "unat (1 + m) = Suc (unat m)" by (rule unatSuc)
  then show ?thesis by (simp add: add.commute)
qed

lemma unat_u32_bound: "unat (m :: u32) < 4294967296"
  using unsigned_less [of m] by simp

lemma fmb_loop_measure:
  "m \<noteq> UINT_MAX \<Longrightarrow> (4294967296 :: nat) - unat (m + 1) < 4294967296 - unat m"
  using unat_u32_bound [of m] by (simp add: unat_succ_below_max)

text \<open>
  The \<open>while (true)\<close> loop of \<open>runImpl\<close>, entered with the solver of the current size
  already created. The size grows by one per iteration and the loop leaves at
  \<open>UINT_MAX\<close> at the latest.
\<close>

function fmb_loop :: "fmb_env \<Rightarrow> u32 \<Rightarrow> u32 \<Rightarrow> message list \<Rightarrow> TerminationReason \<times> message list" where
  "fmb_loop E maxSize modelSize out =
     (let out1 = (if spider E then out else out @ [Trying modelSize]) in
      if timeLimitReached E modelSize then (TIME_LIMIT, out1)
      else if solve E modelSize = SAT_SATISFIABLE then (SATISFIABLE, out1 @ [ModelFound modelSize])
      else if modelSize = UINT_MAX then (UNKNOWN, out1)
      else if maxSize \<le> modelSize then
        (REFUTATION,
         if spider E then out1
         else out1 @ [if isEPR E then CheckedAllConstants else AllFurtherModelsUnsat])
      else
        (case env_reset E (modelSize + 1) of
           None \<Rightarrow> (UNKNOWN, if spider E then out1 else out1 @ [CannotRepresent])
         | Some r \<Rightarrow> fmb_loop E maxSize (modelSize + 1) out1))"
  by pat_completeness auto
termination
  by (relation "measure (\<lambda>(E, maxSize, modelSize, out). 4294967296 - unat modelSize)")
     (simp_all add: fmb_loop_measure)

declare fmb_loop.simps [simp del]

text \<open>
  The bound the loop runs with: in the EPR category \<open>_maxModelSize\<close> is assigned the
  number of constants.
\<close>

definition runImpl_maxModelSize :: "fmb_env \<Rightarrow> u32 \<Rightarrow> u32 \<Rightarrow> u32" where
  "runImpl_maxModelSize E constantCount maxSize = (if isEPR E then constantCount else maxSize)"

text \<open>
  \<open>runImpl\<close>, given \<open>_constantCount\<close> and \<open>_maxModelSize\<close> as \<open>init\<close> left them.
  \<open>ALWAYS(reset(1))\<close> asserts that the first \<open>reset\<close> succeeds; per the specification
  an assertion violation aborts the run.
\<close>

definition runImpl_header :: "fmb_env \<Rightarrow> u32 \<Rightarrow> message list" where
  "runImpl_header E maxSize =
     (if maxSize < UINT_MAX \<and> \<not> spider E then [DetectedMaximumModelSize maxSize] else [])"

definition runImpl :: "fmb_env \<Rightarrow> u32 \<Rightarrow> u32 \<Rightarrow> error + TerminationReason \<times> message list" where
  "runImpl E constantCount maxSize =
     (if \<not> isComplete E then Inr (UNKNOWN, [])
      else
        (let maxSize1 = runImpl_maxModelSize E constantCount maxSize;
             out = runImpl_header E maxSize1
         in case env_reset E 1 of
              None \<Rightarrow> Inl AssertionViolation
            | Some r \<Rightarrow> Inr (fmb_loop E maxSize1 1 out)))"

text \<open>
  \<open>passes E maxSize s\<close>: the iteration that tries size \<open>s\<close> goes on to size \<open>s + 1\<close>.
  \<open>tried E s k out\<close>: the output after \<open>k\<close> such iterations from size \<open>s\<close>.
\<close>

definition passes :: "fmb_env \<Rightarrow> u32 \<Rightarrow> u32 \<Rightarrow> bool" where
  "passes E maxSize s \<longleftrightarrow>
     \<not> timeLimitReached E s \<and> solve E s \<noteq> SAT_SATISFIABLE \<and> s \<noteq> UINT_MAX \<and>
     \<not> maxSize \<le> s \<and> env_reset E (s + 1) \<noteq> None"

definition tried :: "fmb_env \<Rightarrow> u32 \<Rightarrow> nat \<Rightarrow> message list \<Rightarrow> message list" where
  "tried E s k out = (if spider E then out else out @ map (\<lambda>j. Trying (s + of_nat j)) [0..<k])"

text \<open>Environments and clauses used in the examples.\<close>

definition never :: "u32 \<Rightarrow> bool" where
  "never s = False"

definition always_unsat :: "u32 \<Rightarrow> Status" where
  "always_unsat s = SAT_UNSATISFIABLE"

definition two_wide_env :: fmb_env where
  "two_wide_env =
     \<lparr>isComplete = True, isEPR = False, spider = False, conversion = wrap_conversion,
      functionArities = [29, 29], predicateArities = [0], p_offset0 = 0,
      timeLimitReached = never, solve = always_unsat\<rparr>"


definition epr_env :: fmb_env where
  "epr_env =
     \<lparr>isComplete = True, isEPR = True, spider = False, conversion = wrap_conversion,
      functionArities = [0, 0, 0], predicateArities = [0, 1], p_offset0 = 0,
      timeLimitReached = never, solve = always_unsat\<rparr>"

definition small_env :: fmb_env where
  "small_env =
     \<lparr>isComplete = True, isEPR = False, spider = False, conversion = wrap_conversion,
      functionArities = [0], predicateArities = [0, 1], p_offset0 = 0,
      timeLimitReached = never, solve = always_unsat\<rparr>"

definition x_eq_y :: Clause where
  "x_eq_y = \<lparr>literals = [TwoVarEquality True 0 1], varCnt = 2\<rparr>"


subsection \<open>Overflow of the numbering\<close>

lemma fmb_loop_step:
  "passes E maxSize s \<Longrightarrow>
   fmb_loop E maxSize s out = fmb_loop E maxSize (s + 1) (if spider E then out else out @ [Trying s])"
  by (subst fmb_loop.simps) (auto simp: passes_def Let_def)

lemma fmb_loop_iter:
  "(\<forall>j<k. passes E maxSize (s + of_nat j)) \<Longrightarrow>
   fmb_loop E maxSize s out = fmb_loop E maxSize (s + of_nat k) (tried E s k out)"
proof (induction k)
  case 0
  then show ?case by (simp add: tried_def)
next
  case (Suc k)
  then have "fmb_loop E maxSize s out = fmb_loop E maxSize (s + of_nat k) (tried E s k out)"
    by simp
  also have "\<dots> = fmb_loop E maxSize (s + of_nat k + 1)
       (if spider E then tried E s k out else tried E s k out @ [Trying (s + of_nat k)])"
    using Suc.prems by (intro fmb_loop_step) simp
  also have "(if spider E then tried E s k out else tried E s k out @ [Trying (s + of_nat k)])
       = tried E s (Suc k) out"
    by (simp add: tried_def)
  also have "s + of_nat k + 1 = s + of_nat (Suc k)" by simp
  finally show ?case .
qed


lemma fmb_loop_refutation:
  assumes "\<not> timeLimitReached E m" "solve E m \<noteq> SAT_SATISFIABLE" "m \<noteq> UINT_MAX"
    "maxSize \<le> m"
  shows "fmb_loop E maxSize m out =
     (REFUTATION, if spider E then out
        else out @ [Trying m, if isEPR E then CheckedAllConstants else AllFurtherModelsUnsat])"
  using assms by (subst fmb_loop.simps) (auto simp: Let_def)

lemma fmb_loop_at_max:
  assumes "\<not> timeLimitReached E UINT_MAX" "solve E UINT_MAX \<noteq> SAT_SATISFIABLE"
  shows "fmb_loop E maxSize UINT_MAX out = (UNKNOWN, if spider E then out else out @ [Trying UINT_MAX])"
  using assms by (subst fmb_loop.simps) (auto simp: Let_def)

lemma runImpl_enters_loop:
  assumes "isComplete E" and "env_reset E 1 \<noteq> None"
    and "\<forall>j<k. passes E (runImpl_maxModelSize E constantCount maxSize) (1 + of_nat j)"
  shows "runImpl E constantCount maxSize =
     Inr (fmb_loop E (runImpl_maxModelSize E constantCount maxSize) (1 + of_nat k)
            (tried E 1 k (runImpl_header E (runImpl_maxModelSize E constantCount maxSize))))"
proof -
  let ?mx = "runImpl_maxModelSize E constantCount maxSize"
  have "runImpl E constantCount maxSize = Inr (fmb_loop E ?mx 1 (runImpl_header E ?mx))"
    using assms(1,2) by (auto simp: runImpl_def Let_def)
  then show ?thesis using fmb_loop_iter[OF assms(3)] by simp
qed












subsection \<open>The bound in the EPR category\<close>

text \<open>
  Claim C4 (as amended). In the EPR category the bound is set to the number of constants,
  whatever \<open>init\<close> derived, so it never exceeds the constant count; outside EPR the bound
  of \<open>init\<close> is kept.
\<close>

theorem runImpl_maxModelSize_EPR:
  "(isEPR E \<longrightarrow> runImpl_maxModelSize E constantCount maxSize = constantCount \<and>
                runImpl_maxModelSize E constantCount maxSize \<le> constantCount) \<and>
   (\<not> isEPR E \<longrightarrow> runImpl_maxModelSize E constantCount maxSize = maxSize)"
  by (simp add: runImpl_maxModelSize_def)

theorem runImpl_maxModelSize_EPR_witness:
  "isEPR epr_env \<and> runImpl_maxModelSize epr_env 3 2 = 3 \<and>
   \<not> isEPR two_wide_env \<and> runImpl_maxModelSize two_wide_env 3 2 = 2"
  using runImpl_maxModelSize_EPR[of epr_env 3 2] runImpl_maxModelSize_EPR[of two_wide_env 3 2]
  by (simp add: epr_env_def two_wide_env_def)

lemma init_x_eq_y:
  "init True [x_eq_y] = Inr \<lparr>groundClauses = [], clauses = [x_eq_y], maxModelSize = 2\<rparr>"
  by (simp add: init_def init_clause_def isRefutation_def x_eq_y_def fmb_initial_def UINT_MAX_def Let_def)


lemma epr_env_fields:
  "isComplete epr_env" "isEPR epr_env" "\<not> spider epr_env"
  "timeLimitReached epr_env = never" "solve epr_env = always_unsat"
  by (simp_all add: epr_env_def)

lemma upt_two: "[0..<2] = [0, Suc 0]"
  by (simp add: numeral_2_eq_2)

lemma epr_run:
  "runImpl epr_env 3 2 =
     Inr (REFUTATION, [DetectedMaximumModelSize 3, Trying 1, Trying 2, Trying 3, CheckedAllConstants])"
proof -
  have r1: "env_reset epr_env 1 \<noteq> None"
    by (simp add: env_reset_def epr_env_def reset_def pow_unsigned_def UINT_MAX_def Let_def word_less_nat_alt)
  have r2: "env_reset epr_env 2 \<noteq> None"
    by (simp add: env_reset_def epr_env_def reset_def pow_unsigned_def UINT_MAX_def Let_def word_less_nat_alt)
  have r3: "env_reset epr_env 3 \<noteq> None"
    by (simp add: env_reset_def epr_env_def reset_def pow_unsigned_def UINT_MAX_def Let_def word_less_nat_alt)
  have mx: "runImpl_maxModelSize epr_env 3 2 = 3" by (simp add: runImpl_maxModelSize_def epr_env_def)
  have p: "\<forall>j<2. passes epr_env (runImpl_maxModelSize epr_env 3 2) (1 + of_nat j)"
  proof (intro allI impI)
    fix j :: nat assume "j < 2"
    then have "j = 0 \<or> j = 1" by auto
    then show "passes epr_env (runImpl_maxModelSize epr_env 3 2) (1 + of_nat j)"
      using r2 r3 by (auto simp: mx passes_def epr_env_fields never_def always_unsat_def UINT_MAX_def word_le_nat_alt)
  qed
  have "runImpl epr_env 3 2 = Inr (fmb_loop epr_env 3 (1 + of_nat 2)
            (tried epr_env 1 2 (runImpl_header epr_env 3)))"
    using runImpl_enters_loop[OF _ r1 p] by (simp add: mx epr_env_fields)
  also have "fmb_loop epr_env 3 (1 + of_nat 2) (tried epr_env 1 2 (runImpl_header epr_env 3)) =
     (REFUTATION, if spider epr_env then tried epr_env 1 2 (runImpl_header epr_env 3)
        else tried epr_env 1 2 (runImpl_header epr_env 3) @
          [Trying (1 + of_nat 2), if isEPR epr_env then CheckedAllConstants else AllFurtherModelsUnsat])"
    by (rule fmb_loop_refutation)
       (simp_all add: epr_env_fields never_def always_unsat_def UINT_MAX_def)
  finally show ?thesis
    by (simp add: tried_def runImpl_header_def epr_env_fields UINT_MAX_def upt_two word_less_nat_alt)
qed

text \<open>
  Claim C4 as stated fails: the clause \<open>x = y\<close> gives the bound \<open>2\<close>; with three
  constants in an EPR problem the bound becomes \<open>3\<close>, above the earlier bound, and the
  run goes on to size \<open>3\<close>.
\<close>

theorem runImpl_maxModelSize_EPR_counterexample:
  "init True [x_eq_y] = Inr \<lparr>groundClauses = [], clauses = [x_eq_y], maxModelSize = 2\<rparr> \<and>
   isEPR epr_env \<and> runImpl_maxModelSize epr_env 3 2 = 3 \<and> \<not> (3 :: u32) \<le> 2 \<and>
   runImpl epr_env 3 2 =
     Inr (REFUTATION, [DetectedMaximumModelSize 3, Trying 1, Trying 2, Trying 3, CheckedAllConstants])"
  using init_x_eq_y epr_run by (simp add: runImpl_maxModelSize_def epr_env_fields)

subsection \<open>The bound of all-positive-equality clauses\<close>

lemma init_clause_maxModelSize_mono:
  "init_clause c st = Inr st1 \<Longrightarrow> maxModelSize st1 \<le> maxModelSize st"
  by (auto simp: init_clause_def Let_def split: if_splits)

lemma init_loop_maxModelSize_mono:
  "init_loop cs st = Inr st1 \<Longrightarrow> maxModelSize st1 \<le> maxModelSize st"
proof (induction cs arbitrary: st)
  case Nil
  then show ?case by simp
next
  case (Cons c cs)
  then obtain st2 where s: "init_clause c st = Inr st2" "init_loop cs st2 = Inr st1"
    by (auto split: sum.splits)
  from Cons.IH[OF s(2)] init_clause_maxModelSize_mono[OF s(1)] show ?case by simp
qed

lemma posEqs_all:
  "(\<forall>l\<in>set ls. \<exists>x y. l = TwoVarEquality True x y \<and> x \<noteq> y) \<Longrightarrow> posEqs ls = length ls"
  by (induction ls rule: posEqs.induct) auto

lemma init_clause_bound:
  assumes "init_clause c st = Inr st1" and "varCnt c \<noteq> 0"
    and "\<forall>l\<in>set (literals c). \<exists>x y. l = TwoVarEquality True x y \<and> x \<noteq> y"
  shows "maxModelSize st1 \<le> varCnt c"
  using assms posEqs_all[OF assms(3)]
  by (auto simp: init_clause_def Let_def split: if_splits)

lemma init_loop_bound:
  assumes "init_loop cs st = Inr st1" and "c \<in> set cs" and "varCnt c \<noteq> 0"
    and "\<forall>l\<in>set (literals c). \<exists>x y. l = TwoVarEquality True x y \<and> x \<noteq> y"
  shows "maxModelSize st1 \<le> varCnt c"
  using assms(1,2)
proof (induction cs arbitrary: st)
  case Nil
  then show ?case by simp
next
  case (Cons d cs)
  then obtain st2 where s: "init_clause d st = Inr st2" "init_loop cs st2 = Inr st1"
    by (auto split: sum.splits)
  show ?case
  proof (cases "c = d")
    case True
    then have "maxModelSize st2 \<le> varCnt c"
      using init_clause_bound[OF _ assms(3,4)] s(1) by simp
    then show ?thesis using init_loop_maxModelSize_mono[OF s(2)] by simp
  next
    case False
    then have "c \<in> set cs" using Cons.prems(2) by simp
    then show ?thesis using Cons.IH[OF s(2)] by simp
  qed
qed

lemma bound_reached_below_max:
  assumes p: "\<forall>j<k. passes E mx (1 + of_nat j)"
    and le: "mx \<le> 1 + of_nat k" and lt: "mx < UINT_MAX"
  shows "(1 + of_nat k :: u32) \<noteq> UINT_MAX"
proof (cases k)
  case 0
  then show ?thesis by (simp add: UINT_MAX_def)
next
  case (Suc k')
  let ?s = "1 + of_nat k' :: u32"
  from p Suc have ps: "passes E mx ?s" by simp
  then have ns: "?s \<noteq> UINT_MAX" and below: "\<not> mx \<le> ?s" by (simp_all add: passes_def)
  have m: "(1 + of_nat k :: u32) = ?s + 1" using Suc by simp
  have um: "unat (?s + 1) = Suc (unat ?s)" using ns by (rule unat_succ_below_max)
  from le m um have "unat mx \<le> Suc (unat ?s)" by (simp add: word_le_nat_alt)
  moreover from below have "unat ?s < unat mx" by (simp add: word_le_nat_alt)
  ultimately have "unat mx = unat (?s + 1)" using um by simp
  then have "mx = ?s + 1" by (simp only: word_unat_eq_iff)
  then show ?thesis using lt m by auto
qed

lemma runImpl_refutation_at_bound:
  assumes "isComplete E" and "env_reset E 1 \<noteq> None"
    and "\<forall>j<k. passes E (runImpl_maxModelSize E constantCount maxSize) (1 + of_nat j)"
    and "\<not> timeLimitReached E (1 + of_nat k)" and "solve E (1 + of_nat k) = SAT_UNSATISFIABLE"
    and "runImpl_maxModelSize E constantCount maxSize \<le> 1 + of_nat k"
    and "runImpl_maxModelSize E constantCount maxSize < UINT_MAX"
  shows "runImpl E constantCount maxSize =
            Inr (REFUTATION,
                 if spider E then []
                 else runImpl_header E (runImpl_maxModelSize E constantCount maxSize) @
                      map (\<lambda>j. Trying (1 + of_nat j)) [0..<Suc k] @
                      [if isEPR E then CheckedAllConstants else AllFurtherModelsUnsat])"
proof -
  let ?mx = "runImpl_maxModelSize E constantCount maxSize"
  let ?out = "tried E 1 k (runImpl_header E ?mx)"
  have nm: "(1 + of_nat k :: u32) \<noteq> UINT_MAX"
    using assms(3,6,7) by (rule bound_reached_below_max)
  have "runImpl E constantCount maxSize = Inr (fmb_loop E ?mx (1 + of_nat k) ?out)"
    using assms(1-3) by (rule runImpl_enters_loop)
  moreover have "fmb_loop E ?mx (1 + of_nat k) ?out =
     (REFUTATION, if spider E then ?out
        else ?out @ [Trying (1 + of_nat k),
                     if isEPR E then CheckedAllConstants else AllFurtherModelsUnsat])"
    using assms(4,5,6) nm by (intro fmb_loop_refutation) simp_all
  ultimately show ?thesis by (auto simp: tried_def runImpl_header_def)
qed

text \<open>
  Claim C5. A non-ground clause with \<open>k\<close> variables whose literals are all positive
  equalities between two different variables leaves \<open>_maxModelSize \<le> k\<close> after \<open>init\<close>.
  Consequently, with \<open>k\<close> below \<open>UINT_MAX\<close> (the value of \<open>_maxModelSize\<close> that stands for no
  bound) and outside the EPR category (where \<open>runImpl\<close> replaces the bound): when the run has
  gone through the sizes \<open>1, \<dots>, n\<close> and the SAT solver answers unsatisfiable at a size
  \<open>n + 1\<close> that has reached the bound, the run ends with \<open>REFUTATION\<close>. The same holds for
  every bound below \<open>UINT_MAX\<close> the loop runs with, in every category.
\<close>

theorem maxModelSize_bound_and_refutation:
  "(init True cs = Inr st \<and> c \<in> set cs \<and> varCnt c \<noteq> 0 \<and>
      (\<forall>l\<in>set (literals c). \<exists>x y. l = TwoVarEquality True x y \<and> x \<noteq> y)
      \<longrightarrow> maxModelSize st \<le> varCnt c) \<and>
   (init True cs = Inr st \<and> c \<in> set cs \<and> varCnt c \<noteq> 0 \<and>
      (\<forall>l\<in>set (literals c). \<exists>x y. l = TwoVarEquality True x y \<and> x \<noteq> y) \<and>
      varCnt c < UINT_MAX \<and>
      isComplete E \<and> \<not> isEPR E \<and> env_reset E 1 \<noteq> None \<and>
      (\<forall>j<k. passes E (maxModelSize st) (1 + of_nat j)) \<and>
      \<not> timeLimitReached E (1 + of_nat k) \<and> solve E (1 + of_nat k) = SAT_UNSATISFIABLE \<and>
      maxModelSize st \<le> 1 + of_nat k
      \<longrightarrow> runImpl E constantCount (maxModelSize st) =
            Inr (REFUTATION,
                 if spider E then []
                 else runImpl_header E (maxModelSize st) @
                      map (\<lambda>j. Trying (1 + of_nat j)) [0..<Suc k] @ [AllFurtherModelsUnsat])) \<and>
   (isComplete E \<and> env_reset E 1 \<noteq> None \<and>
      (\<forall>j<k. passes E (runImpl_maxModelSize E constantCount maxSize) (1 + of_nat j)) \<and>
      \<not> timeLimitReached E (1 + of_nat k) \<and> solve E (1 + of_nat k) = SAT_UNSATISFIABLE \<and>
      runImpl_maxModelSize E constantCount maxSize \<le> 1 + of_nat k \<and>
      runImpl_maxModelSize E constantCount maxSize < UINT_MAX
      \<longrightarrow> runImpl E constantCount maxSize =
            Inr (REFUTATION,
                 if spider E then []
                 else runImpl_header E (runImpl_maxModelSize E constantCount maxSize) @
                      map (\<lambda>j. Trying (1 + of_nat j)) [0..<Suc k] @
                      [if isEPR E then CheckedAllConstants else AllFurtherModelsUnsat]))"
proof (intro conjI impI)
  assume "init True cs = Inr st \<and> c \<in> set cs \<and> varCnt c \<noteq> 0 \<and>
      (\<forall>l\<in>set (literals c). \<exists>x y. l = TwoVarEquality True x y \<and> x \<noteq> y)"
  then show "maxModelSize st \<le> varCnt c"
    using init_loop_bound[of cs fmb_initial st c] by (simp add: init_def)
next
  assume a: "init True cs = Inr st \<and> c \<in> set cs \<and> varCnt c \<noteq> 0 \<and>
      (\<forall>l\<in>set (literals c). \<exists>x y. l = TwoVarEquality True x y \<and> x \<noteq> y) \<and>
      varCnt c < UINT_MAX \<and>
      isComplete E \<and> \<not> isEPR E \<and> env_reset E 1 \<noteq> None \<and>
      (\<forall>j<k. passes E (maxModelSize st) (1 + of_nat j)) \<and>
      \<not> timeLimitReached E (1 + of_nat k) \<and> solve E (1 + of_nat k) = SAT_UNSATISFIABLE \<and>
      maxModelSize st \<le> 1 + of_nat k"
  then have "maxModelSize st \<le> varCnt c"
    using init_loop_bound[of cs fmb_initial st c] by (simp add: init_def)
  moreover from a have "varCnt c < UINT_MAX" by simp
  ultimately have lt: "maxModelSize st < UINT_MAX" by (rule le_less_trans)
  from a have mx: "runImpl_maxModelSize E constantCount (maxModelSize st) = maxModelSize st"
    by (simp add: runImpl_maxModelSize_def)
  have "runImpl E constantCount (maxModelSize st) =
            Inr (REFUTATION,
                 if spider E then []
                 else runImpl_header E (runImpl_maxModelSize E constantCount (maxModelSize st)) @
                      map (\<lambda>j. Trying (1 + of_nat j)) [0..<Suc k] @
                      [if isEPR E then CheckedAllConstants else AllFurtherModelsUnsat])"
    using a lt by (intro runImpl_refutation_at_bound) (simp_all only: mx, simp_all)
  then show "runImpl E constantCount (maxModelSize st) =
            Inr (REFUTATION,
                 if spider E then []
                 else runImpl_header E (maxModelSize st) @
                      map (\<lambda>j. Trying (1 + of_nat j)) [0..<Suc k] @ [AllFurtherModelsUnsat])"
    using a by (simp only: mx) simp
next
  assume "isComplete E \<and> env_reset E 1 \<noteq> None \<and>
      (\<forall>j<k. passes E (runImpl_maxModelSize E constantCount maxSize) (1 + of_nat j)) \<and>
      \<not> timeLimitReached E (1 + of_nat k) \<and> solve E (1 + of_nat k) = SAT_UNSATISFIABLE \<and>
      runImpl_maxModelSize E constantCount maxSize \<le> 1 + of_nat k \<and>
      runImpl_maxModelSize E constantCount maxSize < UINT_MAX"
  then show "runImpl E constantCount maxSize =
            Inr (REFUTATION,
                 if spider E then []
                 else runImpl_header E (runImpl_maxModelSize E constantCount maxSize) @
                      map (\<lambda>j. Trying (1 + of_nat j)) [0..<Suc k] @
                      [if isEPR E then CheckedAllConstants else AllFurtherModelsUnsat])"
    by (intro runImpl_refutation_at_bound) simp_all
qed

lemma small_env_fields:
  "isComplete small_env" "\<not> isEPR small_env" "\<not> spider small_env"
  "timeLimitReached small_env = never" "solve small_env = always_unsat"
  by (simp_all add: small_env_def)

lemma small_env_reset: "env_reset small_env 1 \<noteq> None" "env_reset small_env 2 \<noteq> None"
  by (simp_all add: env_reset_def small_env_def reset_def pow_unsigned_def UINT_MAX_def Let_def
        word_less_nat_alt)

theorem maxModelSize_bound_and_refutation_witness:
  "init True [x_eq_y] = Inr \<lparr>groundClauses = [], clauses = [x_eq_y], maxModelSize = 2\<rparr> \<and>
   maxModelSize \<lparr>groundClauses = [], clauses = [x_eq_y], maxModelSize = 2\<rparr> \<le> varCnt x_eq_y \<and>
   varCnt x_eq_y < UINT_MAX \<and>
   solve small_env 2 = SAT_UNSATISFIABLE \<and>
   runImpl small_env 1 2 =
     Inr (REFUTATION, [DetectedMaximumModelSize 2, Trying 1, Trying 2, AllFurtherModelsUnsat])"
proof -
  let ?st = "\<lparr>groundClauses = [], clauses = [x_eq_y], maxModelSize = 2\<rparr>"
  have p: "\<forall>j<1. passes small_env (maxModelSize ?st) (1 + of_nat j)"
    using small_env_reset(2)
    by (simp add: passes_def small_env_fields never_def always_unsat_def UINT_MAX_def
          word_le_nat_alt)
  note t = maxModelSize_bound_and_refutation [of "[x_eq_y]" ?st x_eq_y small_env 1 1 2]
  have v: "varCnt x_eq_y < UINT_MAX"
    by (simp add: x_eq_y_def UINT_MAX_def word_less_nat_alt)
  have c: "x_eq_y \<in> set [x_eq_y] \<and> varCnt x_eq_y \<noteq> 0 \<and>
      (\<forall>l\<in>set (literals x_eq_y). \<exists>x y. l = TwoVarEquality True x y \<and> x \<noteq> y)"
    by (simp add: x_eq_y_def)
  have a: "maxModelSize ?st \<le> varCnt x_eq_y"
    using t[THEN conjunct1] init_x_eq_y c by blast
  have u: "\<not> timeLimitReached small_env (1 + of_nat 1) \<and>
           solve small_env (1 + of_nat 1) = SAT_UNSATISFIABLE \<and>
           maxModelSize ?st \<le> 1 + of_nat 1"
    by (simp add: small_env_fields never_def always_unsat_def)
  have "runImpl small_env 1 (maxModelSize ?st) =
            Inr (REFUTATION,
                 if spider small_env then []
                 else runImpl_header small_env (maxModelSize ?st) @
                      map (\<lambda>j. Trying (1 + of_nat j)) [0..<Suc 1] @ [AllFurtherModelsUnsat])"
    using t[THEN conjunct2, THEN conjunct1] init_x_eq_y c v p u small_env_fields(1,2)
      small_env_reset(1)
    by blast
  then have b: "runImpl small_env 1 2 =
     Inr (REFUTATION, [DetectedMaximumModelSize 2, Trying 1, Trying 2, AllFurtherModelsUnsat])"
    by (simp add: small_env_fields UINT_MAX_def runImpl_header_def upt_two word_less_nat_alt)
  show ?thesis using init_x_eq_y a b v by (simp add: small_env_fields always_unsat_def)
qed


section \<open>Finite model builder: the SAT encoding of instances\<close>

text \<open>
  A SAT literal is a variable with a polarity, a SAT clause a sequence of SAT literals.
\<close>

datatype SATLiteral = SATLiteral (var: nat) (polarity: bool)

type_synonym SATClause = "SATLiteral list"

text \<open>
  The loop of \<open>getSATLiteral\<close> over the grounding, in 32-bit arithmetic:
  \<open>var += mult * (grounding[i] - 1); mult *= size\<close>.
\<close>

fun index_loop :: "u32 \<Rightarrow> u32 list \<Rightarrow> u32 \<Rightarrow> u32 \<Rightarrow> u32" where
  "index_loop sz [] v multiplier = v"
| "index_loop sz (g # gs) v multiplier =
     index_loop sz gs (v + multiplier * (g - 1)) (multiplier * sz)"

text \<open>
  The context of the encoding: the arities of the signature and the offsets computed by
  \<open>reset\<close>.
\<close>

record encoding =
  funArity :: "nat list"
  predArity :: "nat list"
  offsets :: numbering

text \<open>
  \<open>getSATLiteral\<close>. Its two assertions (no predicate \<open>0\<close>; the grounding has one entry
  per argument, and one more for the result of a function) and the range checks of the
  arrays it reads are branches that end in an assertion violation.
\<close>

definition getSATLiteral ::
  "encoding \<Rightarrow> nat \<Rightarrow> u32 list \<Rightarrow> bool \<Rightarrow> bool \<Rightarrow> u32 \<Rightarrow> error + SATLiteral"
where
  "getSATLiteral X f grounding pol isFunction sz =
     (if \<not> (0 < f \<or> isFunction) then Inl AssertionViolation
      else if isFunction \<and>
              \<not> (f < length (funArity X) \<and> f < length (f_offsets (offsets X)) \<and>
                 funArity X ! f + 1 = length grounding)
        then Inl AssertionViolation
      else if \<not> isFunction \<and>
              \<not> (f < length (predArity X) \<and> f < length (p_offsets (offsets X)) \<and>
                 predArity X ! f = length grounding)
        then Inl AssertionViolation
      else
        (let offset = (if isFunction then f_offsets (offsets X) ! f else p_offsets (offsets X) ! f)
         in Inr (SATLiteral (unat (index_loop sz grounding offset 1)) pol)))"

text \<open>
  The translation of a literal that is not a two-variable equality under a grounding of
  the variables of its clause: \<open>f(x\<^sub>1, \<dots>, x\<^sub>a) = y\<close> is looked up in the function block
  of \<open>f\<close> with the values of \<open>x\<^sub>1, \<dots>, x\<^sub>a, y\<close>, any other literal in the predicate block
  of its predicate. The variables of a clause are below its variable count, the length
  of the grounding. A two-variable equality that reaches the equality branch violates
  \<open>ASS(lit->nthArgument(0)->isTerm())\<close>.
\<close>

fun translate_literal :: "encoding \<Rightarrow> u32 \<Rightarrow> u32 list \<Rightarrow> Literal \<Rightarrow> error + SATLiteral" where
  "translate_literal X sz grounding (FunctionEquality pol f xs y) =
     getSATLiteral X f (map (\<lambda>x. grounding ! x) xs @ [grounding ! y]) pol True sz"
| "translate_literal X sz grounding (PredicateLiteral pol p xs) =
     getSATLiteral X p (map (\<lambda>x. grounding ! x) xs) pol False sz"
| "translate_literal X sz grounding (TwoVarEquality pol x y) = Inl AssertionViolation"

text \<open>
  The loop of \<open>addNewInstances\<close> over the literals of a clause for one grounding.
  \<open>satClauseLits\<close> collects the SAT literals. \<open>Inr None\<close> is \<open>goto instanceLabel\<close>
  from inside the loop: the instance is skipped and no SAT clause is built for it.
\<close>

fun instance_literals ::
  "encoding \<Rightarrow> u32 \<Rightarrow> u32 list \<Rightarrow> Literal list \<Rightarrow> SATLiteral list \<Rightarrow> error + SATClause option"
where
  "instance_literals X sz grounding [] satClauseLits = Inr (Some satClauseLits)"
| "instance_literals X sz grounding (lit # rest) satClauseLits =
     (case lit of
        TwoVarEquality pol x y \<Rightarrow>
          (let equal = (grounding ! x = grounding ! y) in
           if (pol \<and> equal) \<or> (\<not> pol \<and> \<not> equal) then Inr None
           else if (pol \<and> \<not> equal) \<or> (\<not> pol \<and> equal)
             then instance_literals X sz grounding rest satClauseLits
           else Inl AssertionViolation)
      | _ \<Rightarrow>
          (case translate_literal X sz grounding lit of
             Inl e \<Rightarrow> Inl e
           | Inr slit \<Rightarrow> instance_literals X sz grounding rest (satClauseLits @ [slit])))"

text \<open>
  Modelled from the spec: \<open>Preprocess::removeDuplicateLiterals\<close> is not part of the
  sources at hand. It is modelled by what is said of it: it returns the clause with every
  literal kept once, or null when it eliminates the clause. When it eliminates a clause
  is left open: that is the parameter \<open>eliminated\<close>.
\<close>

definition removeDuplicateLiterals :: "(SATClause \<Rightarrow> bool) \<Rightarrow> SATClause \<Rightarrow> SATClause option" where
  "removeDuplicateLiterals eliminated cl = (if eliminated cl then None else Some (remdups cl))"

text \<open>
  \<open>addSATClause\<close> on the stack \<open>_clausesToBeAdded\<close> (its top is the head of the list).
\<close>

definition addSATClause :: "(SATClause \<Rightarrow> bool) \<Rightarrow> SATClause \<Rightarrow> SATClause list \<Rightarrow> SATClause list" where
  "addSATClause eliminated cl clausesToBeAdded =
     (case removeDuplicateLiterals eliminated cl of
        None \<Rightarrow> clausesToBeAdded
      | Some cl1 \<Rightarrow> cl1 # clausesToBeAdded)"

text \<open>
  The body of the odometer loop of \<open>addNewInstances\<close> for one new grounding of the
  clause \<open>c\<close>: translate the literals and, unless the instance is skipped, hand the SAT
  clause to \<open>addSATClause\<close>.
\<close>

definition addInstance ::
  "encoding \<Rightarrow> (SATClause \<Rightarrow> bool) \<Rightarrow> u32 \<Rightarrow> Clause \<Rightarrow> u32 list \<Rightarrow> SATClause list
     \<Rightarrow> error + SATClause list"
where
  "addInstance X eliminated sz c grounding clausesToBeAdded =
     (case instance_literals X sz grounding (literals c) [] of
        Inl e \<Rightarrow> Inl e
      | Inr None \<Rightarrow> Inr clausesToBeAdded
      | Inr (Some satCl) \<Rightarrow> Inr (addSATClause eliminated satCl clausesToBeAdded))"

text \<open>
  A two-variable equality literal is satisfied by a grounding when its two variables get
  the same value and it is positive, or different values and it is negative.
\<close>

fun satisfied_two_var :: "u32 list \<Rightarrow> Literal \<Rightarrow> bool" where
  "satisfied_two_var grounding (TwoVarEquality pol x y) = (pol = (grounding ! x = grounding ! y))"
| "satisfied_two_var grounding (FunctionEquality pol f xs y) = False"
| "satisfied_two_var grounding (PredicateLiteral pol p xs) = False"

text \<open>An encoding used in the examples: one constant and one unary predicate at size 2.\<close>

definition small_encoding :: encoding where
  "small_encoding =
     \<lparr>funArity = [0], predArity = [0, 1],
      offsets = \<lparr>f_offsets = [1], p_offsets = [0, 5], maxOffset = 9, varCount = 10\<rparr>\<rparr>"

definition x_eq_y_or_p_y :: Clause where
  "x_eq_y_or_p_y = \<lparr>literals = [TwoVarEquality True 0 1, PredicateLiteral True 1 [1]], varCnt = 2\<rparr>"

definition is_tautology :: "SATClause \<Rightarrow> bool" where
  "is_tautology cl = (\<exists>l\<in>set cl. SATLiteral (var l) (\<not> polarity l) \<in> set cl)"


subsection \<open>Instances and two-variable equalities\<close>

lemma instance_literals_acc:
  "instance_literals X sz g ls acc = Inr (Some cl) \<Longrightarrow>
   \<exists>new. cl = acc @ new \<and>
     map Inr new = map (translate_literal X sz g) (filter (\<lambda>l. \<not> isTwoVarEquality l) ls)"
proof (induction ls arbitrary: acc)
  case Nil
  then show ?case by simp
next
  case (Cons l ls)
  show ?case
  proof (cases l)
    case (TwoVarEquality pol x y)
    with Cons.prems have "instance_literals X sz g ls acc = Inr (Some cl)"
      by (auto simp: Let_def split: if_splits)
    from Cons.IH[OF this] show ?thesis using TwoVarEquality by simp
  next
    case (FunctionEquality pol f xs y)
    with Cons.prems obtain slit where s: "translate_literal X sz g l = Inr slit"
      "instance_literals X sz g ls (acc @ [slit]) = Inr (Some cl)"
      by (auto split: sum.splits)
    from Cons.IH[OF s(2)] obtain new where "cl = (acc @ [slit]) @ new"
      "map Inr new = map (translate_literal X sz g) (filter (\<lambda>l. \<not> isTwoVarEquality l) ls)"
      by blast
    then have "cl = acc @ (slit # new) \<and>
       map Inr (slit # new) = map (translate_literal X sz g) (filter (\<lambda>l. \<not> isTwoVarEquality l) (l # ls))"
      using s(1) FunctionEquality by simp
    then show ?thesis by blast
  next
    case (PredicateLiteral pol p xs)
    with Cons.prems obtain slit where s: "translate_literal X sz g l = Inr slit"
      "instance_literals X sz g ls (acc @ [slit]) = Inr (Some cl)"
      by (auto split: sum.splits)
    from Cons.IH[OF s(2)] obtain new where "cl = (acc @ [slit]) @ new"
      "map Inr new = map (translate_literal X sz g) (filter (\<lambda>l. \<not> isTwoVarEquality l) ls)"
      by blast
    then have "cl = acc @ (slit # new) \<and>
       map Inr (slit # new) = map (translate_literal X sz g) (filter (\<lambda>l. \<not> isTwoVarEquality l) (l # ls))"
      using s(1) PredicateLiteral by simp
    then show ?thesis by blast
  qed
qed

lemma instance_literals_skip:
  "instance_literals X sz g ls acc = Inr r \<Longrightarrow>
   (r = None) = (\<exists>l\<in>set ls. satisfied_two_var g l)"
proof (induction ls arbitrary: acc)
  case Nil
  then show ?case by auto
next
  case (Cons l ls)
  show ?case
  proof (cases l)
    case (TwoVarEquality pol x y)
    show ?thesis
    proof (cases "satisfied_two_var g l")
      case True
      then have "instance_literals X sz g (l # ls) acc = Inr None"
        using TwoVarEquality by (auto simp: Let_def)
      then show ?thesis using Cons.prems True by simp
    next
      case False
      then have "instance_literals X sz g (l # ls) acc = instance_literals X sz g ls acc"
        using TwoVarEquality by (auto simp: Let_def)
      then show ?thesis using Cons.IH[of acc] Cons.prems False by simp
    qed
  next
    case (FunctionEquality pol f xs y)
    with Cons.prems obtain slit where
      "instance_literals X sz g ls (acc @ [slit]) = Inr r"
      by (auto split: sum.splits)
    from Cons.IH[OF this] show ?thesis using FunctionEquality by simp
  next
    case (PredicateLiteral pol p xs)
    with Cons.prems obtain slit where
      "instance_literals X sz g ls (acc @ [slit]) = Inr r"
      by (auto split: sum.splits)
    from Cons.IH[OF this] show ?thesis using PredicateLiteral by simp
  qed
qed

text \<open>
  Claim C1 (as amended). For every clause and every grounding for which the loop body
  runs without an assertion violation: if the grounding satisfies some two-variable
  equality literal of the clause, the whole instance is skipped and nothing is queued;
  otherwise the two-variable equality literals, all contradicted by the grounding, are
  dropped, and every remaining literal is translated, an equality \<open>f(x\<^sub>1, \<dots>) = y\<close> in
  the function block and any other literal in the predicate block, the resulting SAT
  clause being handed to \<open>addSATClause\<close>.
\<close>

theorem addInstance_two_var_equalities:
  assumes "addInstance X eliminated sz c grounding clausesToBeAdded = Inr queue"
  shows "((\<exists>l\<in>set (literals c). satisfied_two_var grounding l) \<longrightarrow> queue = clausesToBeAdded) \<and>
         (\<not> (\<exists>l\<in>set (literals c). satisfied_two_var grounding l) \<longrightarrow>
            (\<exists>satCl. queue = addSATClause eliminated satCl clausesToBeAdded \<and>
               map Inr satCl = map (translate_literal X sz grounding)
                                 (filter (\<lambda>l. \<not> isTwoVarEquality l) (literals c))))"
proof -
  from assms obtain r where r: "instance_literals X sz grounding (literals c) [] = Inr r"
    by (auto simp: addInstance_def split: sum.splits)
  show ?thesis
  proof (cases r)
    case None
    then show ?thesis using assms r instance_literals_skip[OF r]
      by (simp add: addInstance_def)
  next
    case (Some satCl)
    then have "\<not> (\<exists>l\<in>set (literals c). satisfied_two_var grounding l)"
      using instance_literals_skip[OF r] by simp
    moreover have "queue = addSATClause eliminated satCl clausesToBeAdded"
      using assms r Some by (simp add: addInstance_def)
    moreover have "map Inr satCl = map (translate_literal X sz grounding)
                                 (filter (\<lambda>l. \<not> isTwoVarEquality l) (literals c))"
      using instance_literals_acc[of X sz grounding "literals c" "[]" satCl] r Some by simp
    ultimately show ?thesis by blast
  qed
qed

lemma small_instance_equal:
  "addInstance small_encoding is_tautology 2 x_eq_y_or_p_y [1, 1] [] = Inr []"
  by (simp add: addInstance_def x_eq_y_or_p_y_def)

lemma small_instance_different:
  "addInstance small_encoding is_tautology 2 x_eq_y_or_p_y [1, 2] [] = Inr [[SATLiteral 6 True]]"
  by (simp add: addInstance_def x_eq_y_or_p_y_def small_encoding_def getSATLiteral_def
        addSATClause_def removeDuplicateLiterals_def is_tautology_def)

theorem addInstance_two_var_equalities_witness:
  "addInstance small_encoding is_tautology 2 x_eq_y_or_p_y [1, 1] [] = Inr [] \<and>
   (\<exists>l\<in>set (literals x_eq_y_or_p_y). satisfied_two_var [1, 1] l) \<and>
   addInstance small_encoding is_tautology 2 x_eq_y_or_p_y [1, 2] [] = Inr [[SATLiteral 6 True]] \<and>
   \<not> (\<exists>l\<in>set (literals x_eq_y_or_p_y). satisfied_two_var [1, 2] l) \<and>
   (\<exists>satCl. [[SATLiteral 6 True]] = addSATClause is_tautology satCl [] \<and>
      map Inr satCl = map (translate_literal small_encoding 2 [1, 2])
                        (filter (\<lambda>l. \<not> isTwoVarEquality l) (literals x_eq_y_or_p_y)))"
  using addInstance_two_var_equalities[OF small_instance_equal]
    addInstance_two_var_equalities[OF small_instance_different]
    small_instance_equal small_instance_different
  by (simp add: x_eq_y_or_p_y_def)

text \<open>
  Claim C1 as stated has the two cases the wrong way round. For \<open>x = y \<or> p(y)\<close>: the
  grounding \<open>x = 1, y = 1\<close> satisfies \<open>x = y\<close> and the instance is skipped (the literal is
  not merely dropped); the grounding \<open>x = 1, y = 2\<close> contradicts \<open>x = y\<close> and the
  instance is kept, as the SAT clause for \<open>p(2)\<close>.
\<close>

theorem addInstance_two_var_equalities_counterexample:
  "satisfied_two_var [1, 1] (TwoVarEquality True 0 1) \<and>
   addInstance small_encoding is_tautology 2 x_eq_y_or_p_y [1, 1] [] = Inr [] \<and>
   addInstance small_encoding is_tautology 2 x_eq_y_or_p_y [1, 1] [] \<noteq> Inr [[SATLiteral 5 True]] \<and>
   \<not> satisfied_two_var [1, 2] (TwoVarEquality True 0 1) \<and>
   addInstance small_encoding is_tautology 2 x_eq_y_or_p_y [1, 2] [] = Inr [[SATLiteral 6 True]] \<and>
   addInstance small_encoding is_tautology 2 x_eq_y_or_p_y [1, 2] [] \<noteq> Inr []"
  using small_instance_equal small_instance_different by simp

text \<open>
  Claim C9. A SAT clause reaches \<open>_clausesToBeAdded\<close> only through \<open>addSATClause\<close>,
  after duplicate-literal removal: when the removal returns null the queue is unchanged;
  otherwise the clause it returns is queued, and it has no literal twice. So a queue whose
  clauses are free of duplicates stays so, also through the instances of a clause.
\<close>

theorem addSATClause_no_duplicates:
  "(removeDuplicateLiterals eliminated cl = None \<longrightarrow>
      addSATClause eliminated cl clausesToBeAdded = clausesToBeAdded) \<and>
   (\<forall>cl1. removeDuplicateLiterals eliminated cl = Some cl1 \<longrightarrow>
      addSATClause eliminated cl clausesToBeAdded = cl1 # clausesToBeAdded \<and> distinct cl1) \<and>
   ((\<forall>c\<in>set clausesToBeAdded. distinct c) \<longrightarrow>
      (\<forall>c\<in>set (addSATClause eliminated cl clausesToBeAdded). distinct c)) \<and>
   ((\<forall>c\<in>set clausesToBeAdded. distinct c) \<and>
      addInstance X eliminated sz cla grounding clausesToBeAdded = Inr queue \<longrightarrow>
      (\<forall>c\<in>set queue. distinct c))"
  by (auto simp: addSATClause_def removeDuplicateLiterals_def addInstance_def
        split: if_splits sum.splits option.splits)

theorem addSATClause_no_duplicates_witness:
  "removeDuplicateLiterals is_tautology [SATLiteral 1 True, SATLiteral 1 False] = None \<and>
   addSATClause is_tautology [SATLiteral 1 True, SATLiteral 1 False] [[SATLiteral 2 True]]
     = [[SATLiteral 2 True]] \<and>
   removeDuplicateLiterals is_tautology [SATLiteral 1 True, SATLiteral 1 True] = Some [SATLiteral 1 True] \<and>
   addSATClause is_tautology [SATLiteral 1 True, SATLiteral 1 True] [[SATLiteral 2 True]]
     = [[SATLiteral 1 True], [SATLiteral 2 True]] \<and>
   distinct [SATLiteral 1 True] \<and> distinct [SATLiteral 2 True] \<and>
   addInstance small_encoding is_tautology 2 x_eq_y_or_p_y [1, 2] [] = Inr [[SATLiteral 6 True]] \<and>
   distinct [SATLiteral 6 True]"
proof -
  have n: "removeDuplicateLiterals is_tautology [SATLiteral 1 True, SATLiteral 1 False] = None"
    by (simp add: removeDuplicateLiterals_def is_tautology_def)
  have s: "removeDuplicateLiterals is_tautology [SATLiteral 1 True, SATLiteral 1 True] = Some [SATLiteral 1 True]"
    by (simp add: removeDuplicateLiterals_def is_tautology_def)
  show ?thesis
    using n s small_instance_different
      addSATClause_no_duplicates[of is_tautology "[SATLiteral 1 True, SATLiteral 1 False]"
        "[[SATLiteral 2 True]]" small_encoding 2 x_eq_y_or_p_y "[1, 2]" "[]"]
      addSATClause_no_duplicates[of is_tautology "[SATLiteral 1 True, SATLiteral 1 True]"
        "[[SATLiteral 2 True]]" small_encoding 2 x_eq_y_or_p_y "[1, 2]" "[]"]
    by simp
qed


section \<open>The transparent pre-solver\<close>

text \<open>
  \<open>TransparentSolver::VarInfo\<close>. A freshly constructed entry is unseen, not rewritten,
  without unit and without assumption; \<open>_isPure\<close>, \<open>_isPurePositive\<close> and
  \<open>_assumedPolarity\<close> are not initialised (\<open>_root\<close> is never used).
\<close>

record VarInfo =
  unseen :: bool
  isPure :: bool
  isRewritten :: bool
  unit :: "SATClause option"
  isPurePositive :: bool
  watched :: "SATClause list"
  hasAssumption :: bool
  assumedPolarity :: bool

text \<open>
  The inner solver is seen through the calls it receives, oldest first, and through what
  it answers after them: its status and its assignment are functions of the calls so far.
\<close>

datatype inner_call =
    InnerEnsureVarCnt nat
  | InnerAddClauses "SATClause list" bool
  | InnerAddAssumption SATLiteral bool
  | InnerRetractAllAssumptions

type_synonym MaybeBool = "bool option"

record inner_solver =
  innerStatus :: "inner_call list \<Rightarrow> Status"
  innerAssignment :: "inner_call list \<Rightarrow> nat \<Rightarrow> MaybeBool"

text \<open>
  Modelled from the spec: \<open>Lib/Stack.hpp\<close> and \<open>Lib/DArray.hpp\<close> are not part of the
  sources at hand. A stack is a list whose head is the top. \<open>Stack::Iterator\<close> runs
  from the top down and \<open>BottomFirstIterator\<close> from the bottom up;
  \<open>loadFromIterator\<close> pushes the elements in the order of the iterator. Deleting
  through an iterator removes by swap-pop, as the specification's design notes say: the
  top element is popped and, unless it is the deleted element itself, stored in the
  deleted element's place. Reading an array outside its size violates an assertion, and
  an assertion violation aborts.
\<close>

definition loadFromIterator :: "'a list \<Rightarrow> 'a list \<Rightarrow> 'a list" where
  "loadFromIterator stack elements = rev elements @ stack"

definition stack_del :: "'a list \<Rightarrow> nat \<Rightarrow> 'a list" where
  "stack_del stack p = (if p = 0 then tl stack else (tl stack)[p - 1 := hd stack])"

record solver =
  inner :: "inner_call list"
  unprocessed :: "SATClause list"
  toBeAdded :: "SATClause list"
  vars :: "VarInfo list"
  assumptions :: "SATLiteral list"

definition setVar :: "solver \<Rightarrow> nat \<Rightarrow> VarInfo \<Rightarrow> solver" where
  "setVar st v vi = st\<lparr>vars := (vars st)[v := vi]\<rparr>"

definition newVarInfo :: "bool \<Rightarrow> bool \<Rightarrow> bool \<Rightarrow> VarInfo" where
  "newVarInfo pure positive assumed =
     \<lparr>unseen = True, isPure = pure, isRewritten = False, unit = None,
      isPurePositive = positive, watched = [], hasAssumption = False,
      assumedPolarity = assumed\<rparr>"

text \<open>\<open>ensureVarCnt\<close>: the array grows by fresh entries and never shrinks.\<close>

definition ensureVarCnt :: "nat \<Rightarrow> solver \<Rightarrow> solver" where
  "ensureVarCnt newVarCnt st =
     st\<lparr>inner := inner st @ [InnerEnsureVarCnt newVarCnt],
        vars := vars st @ replicate (newVarCnt - length (vars st)) (newVarInfo False False False)\<rparr>"

text \<open>
  \<open>tryWatchOrSubsume(cl, forbiddenVar)\<close>: the loop over the literals \<open>lits\<close> still to
  visit of the clause \<open>cl\<close>. The result is the returned flag and the solver.
\<close>

fun tryWatchOrSubsume_loop ::
  "SATClause \<Rightarrow> nat \<Rightarrow> SATLiteral list \<Rightarrow> solver \<Rightarrow> error + bool \<times> solver"
where
  "tryWatchOrSubsume_loop cl forbiddenVar [] st = Inr (False, st)"
| "tryWatchOrSubsume_loop cl forbiddenVar (lit # lits) st =
     (if var lit = forbiddenVar then tryWatchOrSubsume_loop cl forbiddenVar lits st
      else if \<not> var lit < length (vars st) then Inl AssertionViolation
      else
        (let vi = vars st ! var lit in
         case unit vi of
           Some u \<Rightarrow>
             (case u of
                [] \<Rightarrow> Inl AssertionViolation
              | ulit # _ \<Rightarrow>
                  if polarity lit = polarity ulit then Inr (True, st)
                  else tryWatchOrSubsume_loop cl forbiddenVar lits st)
         | None \<Rightarrow>
             if hasAssumption vi \<and> assumedPolarity vi \<noteq> polarity lit
             then tryWatchOrSubsume_loop cl forbiddenVar lits st
             else
               (let vi1 = (if unseen vi
                           then vi\<lparr>unseen := False, isPure := True, isPurePositive := polarity lit\<rparr>
                           else vi)
                in if isPure vi1 \<and> isPurePositive vi1 = polarity lit
                   then (if isRewritten vi1 \<or> unit vi1 \<noteq> None then Inl AssertionViolation
                         else Inr (True, setVar st (var lit) (vi1\<lparr>watched := cl # watched vi1\<rparr>)))
                   else tryWatchOrSubsume_loop cl forbiddenVar lits (setVar st (var lit) vi1))))"

definition tryWatchOrSubsume :: "SATClause \<Rightarrow> nat \<Rightarrow> solver \<Rightarrow> error + bool \<times> solver" where
  "tryWatchOrSubsume cl forbiddenVar st = tryWatchOrSubsume_loop cl forbiddenVar cl st"

text \<open>
  The loop of \<open>tryToSweepPure\<close> over the watched clauses of \<open>v\<close>, with \<open>n\<close> clauses
  still to visit: they are the \<open>n\<close> bottom elements of the stack, and the next one is the
  uppermost of them. The flag of the result tells whether the loop ran to its end.
\<close>

fun sweep_loop :: "nat \<Rightarrow> bool \<Rightarrow> nat \<Rightarrow> solver \<Rightarrow> error + bool \<times> solver" where
  "sweep_loop v eager 0 st = Inr (True, st)"
| "sweep_loop v eager (Suc n) st =
     (let wstack = watched (vars st ! v);
          p = length wstack - Suc n;
          cl = wstack ! p
      in case tryWatchOrSubsume cl v st of
           Inl e \<Rightarrow> Inl e
         | Inr (wasMovedOut, st1) \<Rightarrow>
             if length (watched (vars st1 ! v)) \<noteq> length wstack then Inl AssertionViolation
             else if wasMovedOut
               then sweep_loop v eager n
                      (setVar st1 v ((vars st1 ! v)\<lparr>watched := stack_del (watched (vars st1 ! v)) p\<rparr>))
             else if \<not> eager then Inr (False, st1)
             else sweep_loop v eager n st1)"

definition tryToSweepPure :: "nat \<Rightarrow> bool \<Rightarrow> solver \<Rightarrow> error + bool \<times> solver" where
  "tryToSweepPure v eager st =
     (if \<not> v < length (vars st) then Inl AssertionViolation
      else if \<not> isPure (vars st ! v) then Inl AssertionViolation
      else if \<not> eager \<and> unit (vars st ! v) \<noteq> None then Inr (False, st)
      else
        (case sweep_loop v eager (length (watched (vars st ! v))) st of
           Inl e \<Rightarrow> Inl e
         | Inr (completed, st1) \<Rightarrow>
             if \<not> completed then Inr (False, st1)
             else if watched (vars st1 ! v) = [] \<and> unit (vars st1 ! v) = None
               then Inr (True, setVar st1 v ((vars st1 ! v)\<lparr>unseen := True\<rparr>))
             else Inr (False, st1)))"

definition makeVarNonPure :: "nat \<Rightarrow> solver \<Rightarrow> error + solver" where
  "makeVarNonPure v st =
     (if \<not> v < length (vars st) then Inl AssertionViolation
      else if unseen (vars st ! v) then Inl AssertionViolation
      else if \<not> isPure (vars st ! v) then Inl AssertionViolation
      else
        (case tryToSweepPure v True st of
           Inl e \<Rightarrow> Inl e
         | Inr (swept, st1) \<Rightarrow>
             if swept then Inl AssertionViolation
             else Inr ((setVar st1 v ((vars st1 ! v)\<lparr>watched := [], isPure := False\<rparr>))
                        \<lparr>unprocessed := loadFromIterator (unprocessed st1) (watched (vars st1 ! v))\<rparr>)))"

text \<open>
  \<open>processUnit\<close>, called with a clause of length one. The second part is the code after
  \<open>vi._unit = cl\<close>; it reads \<open>vi\<close> again after each call that may change it.
\<close>

definition processUnit_pure :: "nat \<Rightarrow> bool \<Rightarrow> solver \<Rightarrow> error + solver" where
  "processUnit_pure v pol st =
     (if \<not> unseen (vars st ! v) \<and> isPure (vars st ! v) then
        (if isPurePositive (vars st ! v) = pol
         then Inr (setVar st v ((vars st ! v)\<lparr>watched := []\<rparr>))
         else
           (case tryToSweepPure v False st of
              Inl e \<Rightarrow> Inl e
            | Inr (swept, st1) \<Rightarrow> if swept then Inr st1 else makeVarNonPure v st1))
      else Inr st)"

definition processUnit :: "SATClause \<Rightarrow> solver \<Rightarrow> error + solver" where
  "processUnit cl st =
     (case cl of
        [] \<Rightarrow> Inl AssertionViolation
      | lit # _ \<Rightarrow>
          if \<not> var lit < length (vars st) then Inl AssertionViolation
          else
            (case unit (vars st ! var lit) of
               Some u \<Rightarrow>
                 (case u of
                    [] \<Rightarrow> Inl AssertionViolation
                  | ulit # _ \<Rightarrow>
                      if polarity ulit = polarity lit then Inr st
                      else Inr (st\<lparr>toBeAdded := cl # toBeAdded st\<rparr>))
             | None \<Rightarrow>
                 (let st1 = setVar st (var lit) ((vars st ! var lit)\<lparr>unit := Some cl\<rparr>) in
                  if hasAssumption (vars st1 ! var lit) then Inl AssertionViolation
                  else
                    (case processUnit_pure (var lit) (polarity lit) st1 of
                       Inl e \<Rightarrow> Inl e
                     | Inr st2 \<Rightarrow>
                         (let st3 =
                            (if unseen (vars st2 ! var lit)
                             then setVar st2 (var lit)
                                    ((vars st2 ! var lit)\<lparr>unseen := False, isPure := True,
                                                           isPurePositive := polarity lit\<rparr>)
                             else st2)
                          in Inr (st3\<lparr>toBeAdded := cl # toBeAdded st3\<rparr>))))))"

text \<open>
  The loop of \<open>processUnprocessed\<close> over the literals of a clause that could not be
  watched: it tries to sweep each pure variable and collects in \<open>toUnpure\<close> (a stack)
  those it could not. The flag of the result is \<open>fixed\<close>.
\<close>

fun sweep_literals ::
  "SATClause \<Rightarrow> SATLiteral list \<Rightarrow> nat list \<Rightarrow> solver \<Rightarrow> error + bool \<times> nat list \<times> solver"
where
  "sweep_literals cl [] toUnpure st = Inr (False, toUnpure, st)"
| "sweep_literals cl (lit # lits) toUnpure st =
     (if \<not> var lit < length (vars st) then Inl AssertionViolation
      else if \<not> (\<not> unseen (vars st ! var lit) \<or> hasAssumption (vars st ! var lit))
        then Inl AssertionViolation
      else if \<not> (\<not> hasAssumption (vars st ! var lit) \<or> 1 < length cl)
        then Inl AssertionViolation
      else if \<not> isPure (vars st ! var lit) then sweep_literals cl lits toUnpure st
      else
        (case tryToSweepPure (var lit) False st of
           Inl e \<Rightarrow> Inl e
         | Inr (swept, st1) \<Rightarrow>
             if swept then
               (case tryWatchOrSubsume cl 0 st1 of
                  Inl e \<Rightarrow> Inl e
                | Inr (done, st2) \<Rightarrow>
                    if done then Inr (True, toUnpure, st2) else Inl AssertionViolation)
             else sweep_literals cl lits (var lit # toUnpure) st1))"

fun makeVarsNonPure :: "nat list \<Rightarrow> solver \<Rightarrow> error + solver" where
  "makeVarsNonPure [] st = Inr st"
| "makeVarsNonPure (v # toUnpure) st =
     (case makeVarNonPure v st of
        Inl e \<Rightarrow> Inl e
      | Inr st1 \<Rightarrow> makeVarsNonPure toUnpure st1)"

text \<open>The body of the loop of \<open>processUnprocessed\<close> for the clause just popped.\<close>

definition processClause :: "SATClause \<Rightarrow> solver \<Rightarrow> error + solver" where
  "processClause cl st =
     (if length cl = 1 then processUnit cl st
      else
        (case tryWatchOrSubsume cl 0 st of
           Inl e \<Rightarrow> Inl e
         | Inr (done, st1) \<Rightarrow>
             if done then Inr st1
             else
               (case sweep_literals cl cl [] st1 of
                  Inl e \<Rightarrow> Inl e
                | Inr (fixed, toUnpure, st2) \<Rightarrow>
                    if fixed then Inr st2
                    else makeVarsNonPure toUnpure (st2\<lparr>toBeAdded := cl # toBeAdded st2\<rparr>))))"

text \<open>
  The number of variables that are not yet impure (unseen, or pure) bounds the number of
  times watched clauses can come back to the queue.
\<close>

definition notImpure :: "VarInfo \<Rightarrow> nat" where
  "notImpure vi = (if unseen vi \<or> isPure vi then 1 else 0)"

definition potential :: "solver \<Rightarrow> nat" where
  "potential st = sum_list (map notImpure (vars st))"


text \<open>
  What \<open>tryWatchOrSubsume\<close> can do with a literal of polarity \<open>pol\<close> whose variable has
  the entry \<open>vi\<close>: find the clause subsumed by the unit of the variable, or watch the
  clause on the variable, which must be unseen or pure with that polarity.
\<close>

definition unit_subsumes :: "VarInfo \<Rightarrow> bool \<Rightarrow> bool" where
  "unit_subsumes vi pol \<longleftrightarrow> (\<exists>ulit us. unit vi = Some (ulit # us) \<and> polarity ulit = pol)"

definition watchable :: "VarInfo \<Rightarrow> bool \<Rightarrow> bool" where
  "watchable vi pol \<longleftrightarrow>
     unit vi = None \<and> \<not> (hasAssumption vi \<and> assumedPolarity vi \<noteq> pol) \<and>
     (unseen vi \<or> (isPure vi \<and> isPurePositive vi = pol)) \<and> \<not> isRewritten vi"

definition watch_on :: "SATClause \<Rightarrow> bool \<Rightarrow> VarInfo \<Rightarrow> VarInfo" where
  "watch_on cl pol vi =
     vi\<lparr>unseen := False, isPure := True, isPurePositive := pol, watched := cl # watched vi\<rparr>"


text \<open>
  A clause is subsumed by a unit when one of its literals has the polarity of the unit
  clause stored for the variable of that literal.
\<close>

definition subsumed :: "solver \<Rightarrow> SATClause \<Rightarrow> bool" where
  "subsumed st c \<longleftrightarrow>
     (\<exists>l\<in>set c. var l < length (vars st) \<and> unit_subsumes (vars st ! var l) (polarity l))"

text \<open>
  The elementary changes of the solver state that the clause-processing functions are
  composed of: watching a clause on a variable; deleting from the watched stack of a
  variable a clause that is subsumed or watched elsewhere; returning a pure variable
  without watched clauses and without unit to the unseen state; making a pure variable
  impure, its watched clauses going back to the queue; dropping the watched clauses of a
  pure variable whose unit subsumes them; storing a unit; a first sight of an unseen
  variable; and forwarding a clause.
\<close>

inductive change :: "solver \<Rightarrow> solver \<Rightarrow> bool" where
  watch:
    "v < length (vars st) \<Longrightarrow> watchable (vars st ! v) pol \<Longrightarrow> SATLiteral v pol \<in> set cl \<Longrightarrow>
     change st (setVar st v (watch_on cl pol (vars st ! v)))"
| delete:
    "v < length (vars st) \<Longrightarrow> p < length (watched (vars st ! v)) \<Longrightarrow>
     subsumed st (watched (vars st ! v) ! p) \<or>
       (\<exists>u<length (vars st). u \<noteq> v \<and> watched (vars st ! v) ! p \<in> set (watched (vars st ! u))) \<Longrightarrow>
     change st (setVar st v ((vars st ! v)\<lparr>watched := stack_del (watched (vars st ! v)) p\<rparr>))"
| unsee:
    "v < length (vars st) \<Longrightarrow> isPure (vars st ! v) \<Longrightarrow> watched (vars st ! v) = [] \<Longrightarrow>
     unit (vars st ! v) = None \<Longrightarrow>
     change st (setVar st v ((vars st ! v)\<lparr>unseen := True\<rparr>))"
| requeue:
    "v < length (vars st) \<Longrightarrow> \<not> unseen (vars st ! v) \<Longrightarrow> isPure (vars st ! v) \<Longrightarrow>
     change st ((setVar st v ((vars st ! v)\<lparr>watched := [], isPure := False\<rparr>))
                 \<lparr>unprocessed := loadFromIterator (unprocessed st) (watched (vars st ! v))\<rparr>)"
| drop_subsumed:
    "v < length (vars st) \<Longrightarrow> \<not> unseen (vars st ! v) \<Longrightarrow> isPure (vars st ! v) \<Longrightarrow>
     unit_subsumes (vars st ! v) (isPurePositive (vars st ! v)) \<Longrightarrow>
     change st (setVar st v ((vars st ! v)\<lparr>watched := []\<rparr>))"
| set_unit:
    "v < length (vars st) \<Longrightarrow> unit (vars st ! v) = None \<Longrightarrow>
     change st (setVar st v ((vars st ! v)\<lparr>unit := Some [SATLiteral v pol]\<rparr>))"
| see:
    "v < length (vars st) \<Longrightarrow> unseen (vars st ! v) \<Longrightarrow>
     change st (setVar st v ((vars st ! v)\<lparr>unseen := False, isPure := True, isPurePositive := pol\<rparr>))"
| forward:
    "change st (st\<lparr>toBeAdded := cl # toBeAdded st\<rparr>)"


text \<open>Two entries agree in everything but \<open>_unseen\<close> and \<open>_watched\<close>.\<close>

definition same_flags :: "VarInfo \<Rightarrow> VarInfo \<Rightarrow> bool" where
  "same_flags vi vi1 \<longleftrightarrow>
     isPure vi1 = isPure vi \<and> isRewritten vi1 = isRewritten vi \<and> unit vi1 = unit vi \<and>
     isPurePositive vi1 = isPurePositive vi \<and> hasAssumption vi1 = hasAssumption vi \<and>
     assumedPolarity vi1 = assumedPolarity vi"


subsection \<open>The clause-processing functions as sequences of elementary changes\<close>

lemma setVar_simps [simp]:
  "vars (setVar st v vi) = (vars st)[v := vi]"
  "unprocessed (setVar st v vi) = unprocessed st"
  "toBeAdded (setVar st v vi) = toBeAdded st"
  "inner (setVar st v vi) = inner st"
  "assumptions (setVar st v vi) = assumptions st"
  by (simp_all add: setVar_def)

lemma setVar_same [simp]: "setVar st v (vars st ! v) = st"
  by (simp add: setVar_def)

lemma tryWatchOrSubsume_loop_cases:
  "tryWatchOrSubsume_loop cl fv lits st = Inr (b, st1) \<Longrightarrow>
   (if b then
      (st1 = st \<and> (\<exists>lit\<in>set lits. var lit \<noteq> fv \<and> var lit < length (vars st) \<and>
                      unit_subsumes (vars st ! var lit) (polarity lit))) \<or>
      (\<exists>lit\<in>set lits. var lit \<noteq> fv \<and> var lit < length (vars st) \<and>
          watchable (vars st ! var lit) (polarity lit) \<and>
          st1 = setVar st (var lit) (watch_on cl (polarity lit) (vars st ! var lit)))
    else st1 = st)"
proof (induction lits)
  case Nil
  then show ?case by simp
next
  case (Cons lit lits)
  let ?vi = "vars st ! var lit"
  let ?goal = "if b then
      (st1 = st \<and> (\<exists>l\<in>set (lit # lits). var l \<noteq> fv \<and> var l < length (vars st) \<and>
                      unit_subsumes (vars st ! var l) (polarity l))) \<or>
      (\<exists>l\<in>set (lit # lits). var l \<noteq> fv \<and> var l < length (vars st) \<and>
          watchable (vars st ! var l) (polarity l) \<and>
          st1 = setVar st (var l) (watch_on cl (polarity l) (vars st ! var l)))
    else st1 = st"
  have continue: ?goal if "tryWatchOrSubsume_loop cl fv lits st = Inr (b, st1)"
    using Cons.IH[OF that] by (auto split: if_splits)
  show ?case
  proof (cases "var lit = fv")
    case True
    then show ?thesis using Cons.prems continue by simp
  next
    case False
    then have r: "var lit < length (vars st)" using Cons.prems by (auto split: if_splits)
    show ?thesis
    proof (cases "unit ?vi")
      case (Some u)
      then obtain ulit us where u: "u = ulit # us"
        using Cons.prems False r by (cases u) (auto simp: Let_def)
      show ?thesis
      proof (cases "polarity lit = polarity ulit")
        case True
        then have "b \<and> st1 = st" using Cons.prems False r Some u by (simp add: Let_def)
        moreover have "unit_subsumes ?vi (polarity lit)"
          using Some u True by (simp add: unit_subsumes_def)
        ultimately show ?thesis using False r by auto
      next
        case np: False
        then have "tryWatchOrSubsume_loop cl fv lits st = Inr (b, st1)"
          using Cons.prems False r Some u by (simp add: Let_def)
        then show ?thesis by (rule continue)
      qed
    next
      case None
      show ?thesis
      proof (cases "hasAssumption ?vi \<and> assumedPolarity ?vi \<noteq> polarity lit")
        case True
        then have "tryWatchOrSubsume_loop cl fv lits st = Inr (b, st1)"
          using Cons.prems False r None by (simp add: Let_def)
        then show ?thesis by (rule continue)
      next
        case na: False
        show ?thesis
        proof (cases "unseen ?vi \<or> (isPure ?vi \<and> isPurePositive ?vi = polarity lit)")
          case True
          then have w: "\<not> isRewritten ?vi" and
            "b \<and> st1 = setVar st (var lit)
               ((if unseen ?vi then ?vi\<lparr>unseen := False, isPure := True, isPurePositive := polarity lit\<rparr> else ?vi)
                  \<lparr>watched := cl # watched ?vi\<rparr>)"
            using Cons.prems False r None na by (auto simp: Let_def split: if_splits)
          moreover have "(if unseen ?vi then ?vi\<lparr>unseen := False, isPure := True, isPurePositive := polarity lit\<rparr> else ?vi)
                  \<lparr>watched := cl # watched ?vi\<rparr> = watch_on cl (polarity lit) ?vi"
            using True by (auto simp: watch_on_def)
          moreover have "watchable ?vi (polarity lit)"
            using True None na w by (auto simp: watchable_def)
          ultimately show ?thesis using False r by auto
        next
          case np: False
          then have "tryWatchOrSubsume_loop cl fv lits st = Inr (b, st1)"
            using Cons.prems False r None na by (auto simp: Let_def split: if_splits)
          then show ?thesis by (rule continue)
        qed
      qed
    qed
  qed
qed

lemma tryWatchOrSubsume_cases:
  assumes "tryWatchOrSubsume cl fv st = Inr (b, st1)"
  obtains (failed) "\<not> b" "st1 = st"
  | (by_unit) "b" "st1 = st" "subsumed st cl"
  | (on_var) lit where "b" "lit \<in> set cl" "var lit \<noteq> fv" "var lit < length (vars st)"
      "watchable (vars st ! var lit) (polarity lit)"
      "st1 = setVar st (var lit) (watch_on cl (polarity lit) (vars st ! var lit))"
  using tryWatchOrSubsume_loop_cases[OF assms[unfolded tryWatchOrSubsume_def]]
  by (auto simp: subsumed_def split: if_splits)

lemma tryWatchOrSubsume_changes:
  "tryWatchOrSubsume cl fv st = Inr (b, st1) \<Longrightarrow> change\<^sup>*\<^sup>* st st1"
proof (erule tryWatchOrSubsume_cases)
  fix lit
  assume a: "lit \<in> set cl" "var lit < length (vars st)" "watchable (vars st ! var lit) (polarity lit)"
    "st1 = setVar st (var lit) (watch_on cl (polarity lit) (vars st ! var lit))"
  have "change st (setVar st (var lit) (watch_on cl (polarity lit) (vars st ! var lit)))"
    using a(1-3) by (intro change.watch) simp_all
  then show "change\<^sup>*\<^sup>* st st1" using a(4) by simp
qed simp_all

lemma tryWatchOrSubsume_forbidden:
  "tryWatchOrSubsume cl fv st = Inr (b, st1) \<Longrightarrow> vars st1 ! fv = vars st ! fv"
  by (erule tryWatchOrSubsume_cases) simp_all

lemma tryWatchOrSubsume_length:
  "tryWatchOrSubsume cl fv st = Inr (b, st1) \<Longrightarrow> length (vars st1) = length (vars st)"
  by (erule tryWatchOrSubsume_cases) simp_all

lemma tryWatchOrSubsume_moved:
  assumes "tryWatchOrSubsume cl fv st = Inr (True, st1)"
  shows "subsumed st1 cl \<or> (\<exists>u<length (vars st1). u \<noteq> fv \<and> cl \<in> set (watched (vars st1 ! u)))"
  using assms
proof (cases rule: tryWatchOrSubsume_cases)
  case failed
  then show ?thesis by simp
next
  case by_unit
  then show ?thesis by simp
next
  case (on_var lit)
  then have "var lit < length (vars st1) \<and> var lit \<noteq> fv \<and> cl \<in> set (watched (vars st1 ! var lit))"
    by (simp add: watch_on_def)
  then show ?thesis by blast
qed

lemma length_stack_del: "p < length W \<Longrightarrow> length (stack_del W p) = length W - 1"
  by (cases W) (auto simp: stack_del_def)

lemma mset_stack_del: "p < length W \<Longrightarrow> mset (stack_del W p) = mset W - {#W ! p#}"
proof (cases W)
  case Nil
  then show "p < length W \<Longrightarrow> ?thesis" by simp
next
  case (Cons x xs)
  assume p: "p < length W"
  show ?thesis
  proof (cases p)
    case 0
    then show ?thesis using Cons by (simp add: stack_del_def)
  next
    case (Suc q)
    then have q: "q < length xs" using p Cons by simp
    then have "mset (xs[q := x]) = add_mset x (mset xs - {#xs ! q#})"
      by (simp add: mset_update)
    moreover have "xs ! q \<in># mset xs" using q by simp
    ultimately show ?thesis using Cons Suc q
      by (simp add: stack_del_def multiset_eq_iff)
  qed
qed

lemma set_stack_del: "p < length W \<Longrightarrow> set W \<subseteq> insert (W ! p) (set (stack_del W p))"
proof -
  assume "p < length W"
  then have "mset W = add_mset (W ! p) (mset (stack_del W p))"
    by (simp add: mset_stack_del)
  then have "set_mset (mset W) = set_mset (add_mset (W ! p) (mset (stack_del W p)))"
    by simp
  then show ?thesis by auto
qed

lemma set_stack_del_subset: "p < length W \<Longrightarrow> set (stack_del W p) \<subseteq> set W"
proof -
  assume "p < length W"
  then have "mset (stack_del W p) \<subseteq># mset W" by (simp add: mset_stack_del)
  then show ?thesis by (metis set_mset_mono set_mset_mset)
qed

lemma sweep_loop_changes:
  assumes "sweep_loop v eager n st = Inr (c, st1)" and "v < length (vars st)"
    and "n \<le> length (watched (vars st ! v))"
  shows "change\<^sup>*\<^sup>* st st1 \<and> length (vars st1) = length (vars st) \<and>
         same_flags (vars st ! v) (vars st1 ! v) \<and>
         unseen (vars st1 ! v) = unseen (vars st ! v) \<and>
         mset (watched (vars st1 ! v)) \<subseteq># mset (watched (vars st ! v))"
  using assms
proof (induction n arbitrary: st)
  case 0
  then show ?case by (simp add: same_flags_def)
next
  case (Suc n)
  let ?W = "watched (vars st ! v)"
  let ?p = "length ?W - Suc n"
  have p: "?p < length ?W" using Suc.prems(3) by simp
  from Suc.prems(1) obtain moved st2 where
    t: "tryWatchOrSubsume (?W ! ?p) v st = Inr (moved, st2)"
    by (auto simp: Let_def split: sum.splits)
  have c2: "change\<^sup>*\<^sup>* st st2" using t by (rule tryWatchOrSubsume_changes)
  have v2: "vars st2 ! v = vars st ! v" using t by (rule tryWatchOrSubsume_forbidden)
  have l2: "length (vars st2) = length (vars st)" using t by (rule tryWatchOrSubsume_length)
  show ?case
  proof (cases moved)
    case True
    let ?st3 = "setVar st2 v ((vars st2 ! v)\<lparr>watched := stack_del (watched (vars st2 ! v)) ?p\<rparr>)"
    have rec: "sweep_loop v eager n ?st3 = Inr (c, st1)"
      using Suc.prems(1) t True v2 by (simp add: Let_def)
    have "tryWatchOrSubsume (?W ! ?p) v st = Inr (True, st2)" using t True by simp
    then have "subsumed st2 (?W ! ?p) \<or>
       (\<exists>u<length (vars st2). u \<noteq> v \<and> ?W ! ?p \<in> set (watched (vars st2 ! u)))"
      by (rule tryWatchOrSubsume_moved)
    then have "change st2 ?st3"
      using Suc.prems(2) p l2 v2 by (intro change.delete) simp_all
    then have c3: "change\<^sup>*\<^sup>* st ?st3" using c2 by simp
    have v3: "vars ?st3 ! v = (vars st ! v)\<lparr>watched := stack_del ?W ?p\<rparr>"
      using Suc.prems(2) l2 v2 by simp
    have n3: "n \<le> length (watched (vars ?st3 ! v))"
      using v3 p Suc.prems(3) by (simp add: length_stack_del)
    have "v < length (vars ?st3)" using Suc.prems(2) l2 by simp
    from Suc.IH[OF rec this n3]
    have ih: "change\<^sup>*\<^sup>* ?st3 st1" "length (vars st1) = length (vars ?st3)"
      "same_flags (vars ?st3 ! v) (vars st1 ! v)"
      "unseen (vars st1 ! v) = unseen (vars ?st3 ! v)"
      "mset (watched (vars st1 ! v)) \<subseteq># mset (watched (vars ?st3 ! v))"
      by simp_all
    have "mset (watched (vars ?st3 ! v)) \<subseteq># mset ?W"
      using v3 p by (simp add: mset_stack_del)
    then have "mset (watched (vars st1 ! v)) \<subseteq># mset ?W"
      using ih(5) by (rule subset_mset.order_trans[rotated])
    moreover have "same_flags (vars st ! v) (vars st1 ! v)"
      "unseen (vars st1 ! v) = unseen (vars st ! v)"
      using ih(3,4) v3 by (simp_all add: same_flags_def)
    moreover have "change\<^sup>*\<^sup>* st st1" using c3 ih(1) by simp
    moreover have "length (vars st1) = length (vars st)" using ih(2) l2 by simp
    ultimately show ?thesis by simp
  next
    case False
    show ?thesis
    proof (cases eager)
      case True
      have rec: "sweep_loop v eager n st2 = Inr (c, st1)"
        using Suc.prems(1) t False True v2 by (simp add: Let_def)
      have "v < length (vars st2)" "n \<le> length (watched (vars st2 ! v))"
        using Suc.prems(2,3) l2 v2 by simp_all
      from Suc.IH[OF rec this] c2 l2 v2 show ?thesis by (auto intro: rtranclp_trans)
    next
      case ne: False
      then have "st1 = st2" using Suc.prems(1) t False v2 by (simp add: Let_def)
      then show ?thesis using c2 l2 v2 by (simp add: same_flags_def)
    qed
  qed
qed

lemma tryToSweepPure_result:
  assumes "tryToSweepPure v eager st = Inr (b, st1)"
  shows "change\<^sup>*\<^sup>* st st1 \<and> length (vars st1) = length (vars st) \<and> v < length (vars st) \<and>
         isPure (vars st ! v) \<and> same_flags (vars st ! v) (vars st1 ! v) \<and>
         unseen (vars st1 ! v) = (b \<or> unseen (vars st ! v)) \<and>
         mset (watched (vars st1 ! v)) \<subseteq># mset (watched (vars st ! v)) \<and>
         (b \<longrightarrow> watched (vars st1 ! v) = [] \<and> unit (vars st1 ! v) = None)"
proof -
  have v: "v < length (vars st)" and pure: "isPure (vars st ! v)"
    using assms by (auto simp: tryToSweepPure_def split: if_splits)
  show ?thesis
  proof (cases "\<not> eager \<and> unit (vars st ! v) \<noteq> None")
    case True
    then have "\<not> b \<and> st1 = st" using assms v pure by (auto simp: tryToSweepPure_def)
    then show ?thesis using v pure by (simp add: same_flags_def)
  next
    case False
    then obtain completed st2 where
      l: "sweep_loop v eager (length (watched (vars st ! v))) st = Inr (completed, st2)"
      using assms v pure by (auto simp: tryToSweepPure_def split: sum.splits)
    from sweep_loop_changes[OF l v]
    have s: "change\<^sup>*\<^sup>* st st2" "length (vars st2) = length (vars st)"
      "same_flags (vars st ! v) (vars st2 ! v)"
      "unseen (vars st2 ! v) = unseen (vars st ! v)"
      "mset (watched (vars st2 ! v)) \<subseteq># mset (watched (vars st ! v))"
      by simp_all
    show ?thesis
    proof (cases "completed \<and> watched (vars st2 ! v) = [] \<and> unit (vars st2 ! v) = None")
      case True
      then have r: "b" "st1 = setVar st2 v ((vars st2 ! v)\<lparr>unseen := True\<rparr>)"
        using assms v pure False l by (auto simp: tryToSweepPure_def)
      have "isPure (vars st2 ! v)" using s(3) pure by (simp add: same_flags_def)
      then have "change st2 st1"
        unfolding r(2) using True v s(2) by (intro change.unsee) simp_all
      then have "change\<^sup>*\<^sup>* st st1" using s(1) by simp
      moreover have "vars st1 ! v = (vars st2 ! v)\<lparr>unseen := True\<rparr>"
        using r(2) v s(2) by simp
      ultimately show ?thesis using r True s v pure
        by (simp add: same_flags_def)
    next
      case nc: False
      then have r: "\<not> b" "st1 = st2"
        using assms v pure False l by (auto simp: tryToSweepPure_def split: if_splits)
      then show ?thesis using s v pure by simp
    qed
  qed
qed

lemma makeVarNonPure_changes:
  assumes "makeVarNonPure v st = Inr st1"
  shows "change\<^sup>*\<^sup>* st st1"
proof -
  have v: "v < length (vars st)" "\<not> unseen (vars st ! v)" "isPure (vars st ! v)"
    using assms by (auto simp: makeVarNonPure_def split: if_splits)
  then obtain st2 where t: "tryToSweepPure v True st = Inr (False, st2)"
    and r: "st1 = (setVar st2 v ((vars st2 ! v)\<lparr>watched := [], isPure := False\<rparr>))
                    \<lparr>unprocessed := loadFromIterator (unprocessed st2) (watched (vars st2 ! v))\<rparr>"
    using assms by (auto simp: makeVarNonPure_def split: sum.splits if_splits)
  from tryToSweepPure_result[OF t]
  have s: "change\<^sup>*\<^sup>* st st2" "length (vars st2) = length (vars st)"
    "same_flags (vars st ! v) (vars st2 ! v)" "unseen (vars st2 ! v) = unseen (vars st ! v)"
    by simp_all
  have "\<not> unseen (vars st2 ! v)" "isPure (vars st2 ! v)"
    using s(3,4) v by (simp_all add: same_flags_def)
  then have "change st2 st1" unfolding r using v(1) s(2) by (intro change.requeue) simp_all
  then show ?thesis using s(1) by simp
qed

lemma processUnit_pure_changes:
  assumes "processUnit_pure v pol st = Inr st1" and "v < length (vars st)"
    and "\<exists>us. unit (vars st ! v) = Some (SATLiteral v pol # us)"
  shows "change\<^sup>*\<^sup>* st st1"
proof (cases "\<not> unseen (vars st ! v) \<and> isPure (vars st ! v)")
  case False
  then show ?thesis using assms(1) by (auto simp: processUnit_pure_def)
next
  case True
  show ?thesis
  proof (cases "isPurePositive (vars st ! v) = pol")
    case same: True
    then have "st1 = setVar st v ((vars st ! v)\<lparr>watched := []\<rparr>)"
      using assms(1) True by (simp add: processUnit_pure_def)
    moreover have "unit_subsumes (vars st ! v) (isPurePositive (vars st ! v))"
      using assms(3) same by (auto simp: unit_subsumes_def)
    ultimately have "change st st1" using assms(2) True by (simp add: change.drop_subsumed)
    then show ?thesis by simp
  next
    case other: False
    then obtain swept st2 where t: "tryToSweepPure v False st = Inr (swept, st2)"
      and r: "if swept then st1 = st2 else makeVarNonPure v st2 = Inr st1"
      using assms(1) True by (auto simp: processUnit_pure_def split: sum.splits if_splits)
    have "change\<^sup>*\<^sup>* st st2" using tryToSweepPure_result[OF t] by simp
    moreover have "change\<^sup>*\<^sup>* st2 st1"
      using r makeVarNonPure_changes by (cases swept) auto
    ultimately show ?thesis by simp
  qed
qed

lemma change_length: "change st st1 \<Longrightarrow> length (vars st1) = length (vars st)"
  by (induction rule: change.induct) simp_all

lemma changes_length: "change\<^sup>*\<^sup>* st st1 \<Longrightarrow> length (vars st1) = length (vars st)"
  by (induction rule: rtranclp_induct) (simp_all add: change_length)

lemma processUnit_changes:
  assumes "processUnit cl st = Inr st1" and "length cl = 1"
  shows "change\<^sup>*\<^sup>* st st1"
proof -
  obtain lit where cl: "cl = [lit]" using assms(2) by (cases cl) auto
  have v: "var lit < length (vars st)"
    using assms(1) cl by (auto simp: processUnit_def split: if_splits)
  let ?v = "var lit"
  show ?thesis
  proof (cases "unit (vars st ! ?v)")
    case (Some u)
    then have "st1 = st \<or> st1 = st\<lparr>toBeAdded := cl # toBeAdded st\<rparr>"
      using assms(1) cl v by (auto simp: processUnit_def split: list.splits if_splits)
    then show ?thesis using change.forward[of st cl] by auto
  next
    case None
    let ?st1 = "setVar st ?v ((vars st ! ?v)\<lparr>unit := Some cl\<rparr>)"
    let ?see = "\<lambda>st2. if unseen (vars st2 ! ?v)
                then setVar st2 ?v ((vars st2 ! ?v)\<lparr>unseen := False, isPure := True,
                                                      isPurePositive := polarity lit\<rparr>)
                else st2"
    have "cl = [SATLiteral ?v (polarity lit)]" using cl by simp
    then have c1: "change st ?st1" using v None change.set_unit[of ?v st "polarity lit"] by simp
    have h: "\<not> hasAssumption (vars ?st1 ! ?v)"
      using assms(1) v None unfolding processUnit_def cl
      by (simp add: Let_def split: if_splits)
    obtain st2 where p: "processUnit_pure ?v (polarity lit) ?st1 = Inr st2"
      and r: "st1 = (?see st2)\<lparr>toBeAdded := cl # toBeAdded (?see st2)\<rparr>"
    proof (cases "processUnit_pure ?v (polarity lit) ?st1")
      case (Inl e)
      then have False using assms(1) v None h unfolding processUnit_def cl
        by (simp add: Let_def)
      then show ?thesis ..
    next
      case (Inr st2)
      then have "st1 = (?see st2)\<lparr>toBeAdded := cl # toBeAdded (?see st2)\<rparr>"
        using assms(1) v None h unfolding processUnit_def cl
        by (simp add: Let_def)
      then show ?thesis using Inr that by blast
    qed
    have c2: "change\<^sup>*\<^sup>* ?st1 st2"
      using v by (intro processUnit_pure_changes[OF p]) (simp_all add: cl)
    have l2: "length (vars st2) = length (vars st)"
      using changes_length[OF c2] by simp
    have c3: "change\<^sup>*\<^sup>* st2 (?see st2)"
      using v l2 change.see[of ?v st2 "polarity lit"] by auto
    have c4: "change (?see st2) st1" unfolding r by (rule change.forward)
    have "change\<^sup>*\<^sup>* st st2" using c1 c2 by (rule converse_rtranclp_into_rtranclp)
    then have "change\<^sup>*\<^sup>* st (?see st2)" using c3 by (rule rtranclp_trans)
    then show ?thesis using c4 by (rule rtranclp.rtrancl_into_rtrancl)
  qed
qed

lemma sweep_literals_Cons:
  assumes "sweep_literals cl (lit # lits) toUnpure st = Inr r"
  shows "var lit < length (vars st) \<and>
     (if \<not> isPure (vars st ! var lit) then sweep_literals cl lits toUnpure st = Inr r
      else \<exists>swept st1. tryToSweepPure (var lit) False st = Inr (swept, st1) \<and>
             (if swept then \<exists>st2. tryWatchOrSubsume cl 0 st1 = Inr (True, st2) \<and> r = (True, toUnpure, st2)
              else sweep_literals cl lits (var lit # toUnpure) st1 = Inr r))"
proof -
  have v: "var lit < length (vars st)"
    using assms by (simp split: if_splits)
  show ?thesis
  proof (cases "isPure (vars st ! var lit)")
    case False
    then show ?thesis using assms v by (simp split: if_splits)
  next
    case True
    have e: "(case tryToSweepPure (var lit) False st of
                Inl e \<Rightarrow> Inl e
              | Inr (swept, st1) \<Rightarrow>
                  if swept then
                    (case tryWatchOrSubsume cl 0 st1 of
                       Inl e \<Rightarrow> Inl e
                     | Inr (ok, st2) \<Rightarrow>
                         if ok then Inr (True, toUnpure, st2) else Inl AssertionViolation)
                  else sweep_literals cl lits (var lit # toUnpure) st1) = Inr r"
      using assms v True by (simp split: if_splits)
    show ?thesis
    proof (cases "tryToSweepPure (var lit) False st")
      case (Inl e)
      then show ?thesis using e by simp
    next
      case (Inr p)
      obtain swept st1 where p: "p = (swept, st1)" by (cases p)
      show ?thesis
      proof (cases swept)
        case False
        then show ?thesis using e v True Inr p by auto
      next
        case s: True
        show ?thesis
        proof (cases "tryWatchOrSubsume cl 0 st1")
          case (Inl e)
          then show ?thesis using e Inr p s by simp
        next
          case i2: (Inr q)
          obtain ok st2 where q: "q = (ok, st2)" by (cases q)
          show ?thesis using e v True Inr p s i2 q by (cases ok) auto
        qed
      qed
    qed
  qed
qed

lemma sweep_literals_changes:
  "sweep_literals cl lits toUnpure st = Inr (fixed, toUnpure1, st1) \<Longrightarrow> change\<^sup>*\<^sup>* st st1"
proof (induction lits arbitrary: toUnpure st)
  case Nil
  then show ?case by simp
next
  case (Cons lit lits)
  note c = sweep_literals_Cons[OF Cons.prems]
  show ?case
  proof (cases "isPure (vars st ! var lit)")
    case False
    then have "sweep_literals cl lits toUnpure st = Inr (fixed, toUnpure1, st1)"
      using c by simp
    then show ?thesis by (rule Cons.IH)
  next
    case True
    then obtain swept st2 where t: "tryToSweepPure (var lit) False st = Inr (swept, st2)"
      and r: "if swept then \<exists>st3. tryWatchOrSubsume cl 0 st2 = Inr (True, st3) \<and>
                 (fixed, toUnpure1, st1) = (True, toUnpure, st3)
              else sweep_literals cl lits (var lit # toUnpure) st2 = Inr (fixed, toUnpure1, st1)"
      using c by auto
    have c2: "change\<^sup>*\<^sup>* st st2" using tryToSweepPure_result[OF t] by simp
    show ?thesis
    proof (cases swept)
      case s: True
      then have "tryWatchOrSubsume cl 0 st2 = Inr (True, st1)" using r by auto
      then have "change\<^sup>*\<^sup>* st2 st1" by (rule tryWatchOrSubsume_changes)
      then show ?thesis using c2 by simp
    next
      case False
      then have "sweep_literals cl lits (var lit # toUnpure) st2 = Inr (fixed, toUnpure1, st1)"
        using r by simp
      then have "change\<^sup>*\<^sup>* st2 st1" by (rule Cons.IH)
      then show ?thesis using c2 by simp
    qed
  qed
qed

lemma makeVarsNonPure_changes:
  "makeVarsNonPure toUnpure st = Inr st1 \<Longrightarrow> change\<^sup>*\<^sup>* st st1"
proof (induction toUnpure arbitrary: st)
  case Nil
  then show ?case by simp
next
  case (Cons v toUnpure)
  then obtain st2 where "makeVarNonPure v st = Inr st2" "makeVarsNonPure toUnpure st2 = Inr st1"
    by (auto split: sum.splits)
  then have "change\<^sup>*\<^sup>* st st2" "change\<^sup>*\<^sup>* st2 st1"
    using makeVarNonPure_changes Cons.IH by blast+
  then show ?case by (rule rtranclp_trans)
qed

lemma processClause_changes:
  assumes "processClause cl st = Inr st1"
  shows "change\<^sup>*\<^sup>* st st1"
proof (cases "length cl = 1")
  case True
  then show ?thesis using assms processUnit_changes by (simp add: processClause_def)
next
  case False
  then obtain ok st2 where t: "tryWatchOrSubsume cl 0 st = Inr (ok, st2)"
    using assms by (auto simp: processClause_def split: sum.splits)
  have c2: "change\<^sup>*\<^sup>* st st2" using t by (rule tryWatchOrSubsume_changes)
  show ?thesis
  proof (cases ok)
    case True
    then show ?thesis using assms False t c2 by (simp add: processClause_def)
  next
    case nd: False
    then obtain fixed toUnpure st3 where s: "sweep_literals cl cl [] st2 = Inr (fixed, toUnpure, st3)"
      using assms False t by (auto simp: processClause_def split: sum.splits)
    have c3: "change\<^sup>*\<^sup>* st2 st3" using s by (rule sweep_literals_changes)
    show ?thesis
    proof (cases fixed)
      case True
      then show ?thesis using assms False t nd s c2 c3 by (simp add: processClause_def)
    next
      case nf: False
      then have m: "makeVarsNonPure toUnpure (st3\<lparr>toBeAdded := cl # toBeAdded st3\<rparr>) = Inr st1"
        using assms False t nd s by (simp add: processClause_def)
      have "change st3 (st3\<lparr>toBeAdded := cl # toBeAdded st3\<rparr>)" by (rule change.forward)
      then have "change\<^sup>*\<^sup>* st3 st1" using makeVarsNonPure_changes[OF m]
        by (rule converse_rtranclp_into_rtranclp)
      then show ?thesis using c2 c3 by simp
    qed
  qed
qed


subsection \<open>Termination of the queue\<close>

text \<open>
  Termination of \<open>processUnprocessed\<close>: no change lets the number of variables that are
  not impure grow, and the only change that touches the queue lowers that number.
\<close>

definition progress :: "solver \<Rightarrow> solver \<Rightarrow> bool" where
  "progress st st1 \<longleftrightarrow>
     length (vars st1) = length (vars st) \<and>
     (potential st1 < potential st \<or>
      (potential st1 = potential st \<and> unprocessed st1 = unprocessed st))"

lemma progress_refl: "progress st st"
  by (simp add: progress_def)

lemma progress_trans: "progress st st1 \<Longrightarrow> progress st1 st2 \<Longrightarrow> progress st st2"
  by (auto simp: progress_def)

lemma potential_unprocessed [simp]: "potential (st\<lparr>unprocessed := u\<rparr>) = potential st"
  by (simp add: potential_def)

lemma potential_toBeAdded [simp]: "potential (st\<lparr>toBeAdded := u\<rparr>) = potential st"
  by (simp add: potential_def)

lemma sum_list_map_update:
  assumes "v < length xs" and "f y = f (xs ! v)"
  shows "sum_list (map f (xs[v := y])) = (sum_list (map f xs) :: nat)"
proof -
  have "map f (xs[v := y]) = (map f xs)[v := (map f xs) ! v]"
    using assms by (simp add: map_update)
  then show ?thesis by (simp only: list_update_id)
qed

lemma potential_setVar:
  "v < length (vars st) \<Longrightarrow> notImpure vi = notImpure (vars st ! v) \<Longrightarrow>
   potential (setVar st v vi) = potential st"
  by (simp add: potential_def sum_list_map_update)

lemma potential_setVar_less:
  assumes "v < length (vars st)" "notImpure vi = 0" "notImpure (vars st ! v) = 1"
  shows "potential (setVar st v vi) < potential st"
proof -
  let ?xs = "map notImpure (vars st)"
  have v: "v < length ?xs" using assms(1) by simp
  have "sum_list (?xs[v := notImpure vi]) = sum_list ?xs + notImpure vi - ?xs ! v"
    using v by (rule sum_list_update)
  moreover have "?xs ! v \<le> sum_list ?xs"
    using v by (intro member_le_sum_list nth_mem) simp_all
  moreover have "?xs ! v = 1" using assms(1,3) by simp
  ultimately have "sum_list (?xs[v := notImpure vi]) < sum_list ?xs"
    using assms(2) by simp
  then show ?thesis by (simp add: potential_def map_update)
qed

lemma progress_setVar:
  "v < length (vars st) \<Longrightarrow> notImpure vi = notImpure (vars st ! v) \<Longrightarrow>
   progress st (setVar st v vi)"
  by (simp add: progress_def potential_setVar)

lemma change_progress: "change st st1 \<Longrightarrow> progress st st1"
proof (induction rule: change.induct)
  case (watch v st pol cl)
  then show ?case
    by (intro progress_setVar) (auto simp: notImpure_def watch_on_def watchable_def)
next
  case (delete v st p)
  then show ?case by (intro progress_setVar) (auto simp: notImpure_def)
next
  case (unsee v st)
  then show ?case by (intro progress_setVar) (auto simp: notImpure_def)
next
  case (requeue v st)
  then have "potential (setVar st v ((vars st ! v)\<lparr>watched := [], isPure := False\<rparr>)) < potential st"
    by (intro potential_setVar_less) (auto simp: notImpure_def)
  then show ?case by (simp add: progress_def)
next
  case (drop_subsumed v st)
  then show ?case by (intro progress_setVar) (auto simp: notImpure_def)
next
  case (set_unit v st pol)
  then show ?case by (intro progress_setVar) (auto simp: notImpure_def)
next
  case (see v st pol)
  then show ?case by (intro progress_setVar) (auto simp: notImpure_def)
next
  case (forward st cl)
  then show ?case by (simp add: progress_def)
qed

lemma changes_progress: "change\<^sup>*\<^sup>* st st1 \<Longrightarrow> progress st st1"
  by (induction rule: rtranclp_induct) (auto intro: progress_refl progress_trans change_progress)

lemma processClause_progress:
  "processClause cl st = Inr st1 \<Longrightarrow> progress st st1"
  by (intro changes_progress processClause_changes)

text \<open>
  \<open>processUnprocessed\<close>: the loop pops the top clause of \<open>_unprocessed\<close> and processes it
  until the queue is empty.
\<close>

function processUnprocessed :: "solver \<Rightarrow> error + solver" where
  "processUnprocessed st =
     (case unprocessed st of
        [] \<Rightarrow> Inr st
      | cl # rest \<Rightarrow>
          (case processClause cl (st\<lparr>unprocessed := rest\<rparr>) of
             Inl e \<Rightarrow> Inl e
           | Inr st1 \<Rightarrow> processUnprocessed st1))"
  by pat_completeness auto
termination
proof (relation "inv_image (less_than <*lex*> less_than)
                   (\<lambda>st. (potential st, length (unprocessed st)))")
  show "wf (inv_image (less_than <*lex*> less_than)
              (\<lambda>st. (potential st, length (unprocessed st))))"
    by (intro wf_inv_image wf_lex_prod wf_less_than)
next
  fix st :: solver and cl rest st1
  assume u: "unprocessed st = cl # rest"
    and p: "processClause cl (st\<lparr>unprocessed := rest\<rparr>) = Inr st1"
  have "progress (st\<lparr>unprocessed := rest\<rparr>) st1" using p by (rule processClause_progress)
  then show "(st1, st) \<in> inv_image (less_than <*lex*> less_than)
                            (\<lambda>st. (potential st, length (unprocessed st)))"
    using u by (auto simp: progress_def)
qed

declare processUnprocessed.simps [simp del]

text \<open>The remaining operations of the solver.\<close>

definition flushClausesToInner :: "bool \<Rightarrow> solver \<Rightarrow> solver" where
  "flushClausesToInner onlyPropagate st =
     st\<lparr>inner := inner st @ [InnerAddClauses (toBeAdded st) onlyPropagate], toBeAdded := []\<rparr>"

definition addClauses :: "SATClause list \<Rightarrow> bool \<Rightarrow> solver \<Rightarrow> error + solver" where
  "addClauses cit onlyPropagate st =
     (if assumptions st \<noteq> [] then Inl AssertionViolation
      else if unprocessed st \<noteq> [] then Inl AssertionViolation
      else if toBeAdded st \<noteq> [] then Inl AssertionViolation
      else
        (case processUnprocessed (st\<lparr>unprocessed := loadFromIterator (unprocessed st) cit\<rparr>) of
           Inl e \<Rightarrow> Inl e
         | Inr st1 \<Rightarrow> Inr (flushClausesToInner onlyPropagate st1)))"

definition addInnerAssumption :: "SATLiteral \<Rightarrow> bool \<Rightarrow> solver \<Rightarrow> solver" where
  "addInnerAssumption lit onlyPropagate st =
     st\<lparr>inner := inner st @ [InnerAddAssumption lit onlyPropagate]\<rparr>"

definition opposite :: "SATLiteral \<Rightarrow> SATLiteral" where
  "opposite lit = SATLiteral (var lit) (\<not> polarity lit)"

text \<open>
  The last loop of \<open>addAssumption\<close>, over the recorded assumptions from the bottom of
  the stack: every assumption but the last is only propagated.
\<close>

fun restoreAssumptions :: "bool \<Rightarrow> SATLiteral list \<Rightarrow> solver \<Rightarrow> solver" where
  "restoreAssumptions onlyPropagate [] st = st"
| "restoreAssumptions onlyPropagate (restoredLit # rest) st =
     restoreAssumptions onlyPropagate rest
       (addInnerAssumption restoredLit (onlyPropagate \<or> rest \<noteq> []) st)"

definition addAssumption :: "inner_solver \<Rightarrow> SATLiteral \<Rightarrow> bool \<Rightarrow> solver \<Rightarrow> error + solver" where
  "addAssumption I lit onlyPropagate st =
     (if \<not> var lit < length (vars st) then Inl AssertionViolation
      else if hasAssumption (vars st ! var lit) then
        (if assumedPolarity (vars st ! var lit) = polarity lit then Inr st
         else
           (let st1 = addInnerAssumption lit True (addInnerAssumption (opposite lit) True st) in
            if innerStatus I (inner st1) \<noteq> SAT_UNSATISFIABLE then Inl AssertionViolation
            else Inr st1))
      else
        (let st1 = (setVar st (var lit)
                      ((vars st ! var lit)\<lparr>hasAssumption := True, assumedPolarity := polarity lit\<rparr>))
                   \<lparr>assumptions := lit # assumptions st\<rparr>;
             vi = vars st1 ! var lit
         in if innerStatus I (inner st1) = SAT_UNSATISFIABLE then Inr st1
            else if unit vi \<noteq> None \<or> unseen vi \<or> \<not> isPure vi
              then Inr (addInnerAssumption lit onlyPropagate st1)
            else if isPurePositive vi = polarity lit then Inr st1
            else
              (case tryToSweepPure (var lit) False st1 of
                 Inl e \<Rightarrow> Inl e
               | Inr (swept, st2) \<Rightarrow>
                   if swept then Inr (addInnerAssumption lit onlyPropagate st2)
                   else
                     (case makeVarNonPure (var lit) st2 of
                        Inl e \<Rightarrow> Inl e
                      | Inr st3 \<Rightarrow>
                          (case processUnprocessed st3 of
                             Inl e \<Rightarrow> Inl e
                           | Inr st4 \<Rightarrow>
                               (let st5 = flushClausesToInner True
                                            (st4\<lparr>inner := inner st4 @ [InnerRetractAllAssumptions]\<rparr>)
                                in Inr (restoreAssumptions onlyPropagate
                                          (rev (assumptions st5)) st5)))))))"

fun retract_loop :: "SATLiteral list \<Rightarrow> solver \<Rightarrow> error + solver" where
  "retract_loop [] st = Inr st"
| "retract_loop (lit # rest) st =
     (if \<not> var lit < length (vars st) then Inl AssertionViolation
      else if \<not> hasAssumption (vars st ! var lit) then Inl AssertionViolation
      else if assumedPolarity (vars st ! var lit) \<noteq> polarity lit then Inl AssertionViolation
      else retract_loop rest
             ((setVar st (var lit) ((vars st ! var lit)\<lparr>hasAssumption := False\<rparr>))
                \<lparr>assumptions := rest\<rparr>))"

definition retractAllAssumptions :: "solver \<Rightarrow> error + solver" where
  "retractAllAssumptions st =
     retract_loop (assumptions st) (st\<lparr>inner := inner st @ [InnerRetractAllAssumptions]\<rparr>)"

definition getAssignment :: "inner_solver \<Rightarrow> nat \<Rightarrow> solver \<Rightarrow> error + MaybeBool" where
  "getAssignment I v st =
     (if \<not> v < length (vars st) then Inl AssertionViolation
      else if hasAssumption (vars st ! v) then Inr (Some (assumedPolarity (vars st ! v)))
      else if \<not> unseen (vars st ! v) \<and> isPure (vars st ! v)
        then Inr (Some (isPurePositive (vars st ! v)))
      else Inr (innerAssignment I (inner st) v))"

definition getStatus :: "inner_solver \<Rightarrow> solver \<Rightarrow> Status" where
  "getStatus I st = innerStatus I (inner st)"

definition hasAssumptions :: "solver \<Rightarrow> bool" where
  "hasAssumptions st = (assumptions st \<noteq> [])"

text \<open>
  The life cycle of a variable: unseen, then pure, then impure.
\<close>

definition stage :: "VarInfo \<Rightarrow> nat" where
  "stage vi = (if unseen vi then 0 else if isPure vi then 1 else 2)"


subsection \<open>Sweeping a pure variable\<close>

text \<open>States used in the examples.\<close>

definition pure_var :: "bool \<Rightarrow> SATClause list \<Rightarrow> VarInfo" where
  "pure_var positive ws =
     \<lparr>unseen = False, isPure = True, isRewritten = False, unit = None,
      isPurePositive = positive, watched = ws, hasAssumption = False,
      assumedPolarity = False\<rparr>"

definition sweep_example :: solver where
  "sweep_example =
     \<lparr>inner = [], unprocessed = [], toBeAdded = [],
      vars = [pure_var True [[SATLiteral 0 True, SATLiteral 1 True]], newVarInfo False False False],
      assumptions = []\<rparr>"

definition swept_example :: solver where
  "swept_example =
     \<lparr>inner = [], unprocessed = [], toBeAdded = [],
      vars = [(pure_var True [])\<lparr>unseen := True\<rparr>,
              pure_var True [[SATLiteral 0 True, SATLiteral 1 True]]],
      assumptions = []\<rparr>"


lemma change_stage:
  "change st st1 \<Longrightarrow> u < length (vars st) \<Longrightarrow>
   stage (vars st ! u) \<le> stage (vars st1 ! u) \<or>
   (stage (vars st ! u) = 1 \<and> stage (vars st1 ! u) = 0 \<and>
    watched (vars st1 ! u) = [] \<and> unit (vars st1 ! u) = None)"
proof (induction rule: change.induct)
  case (watch v st pol cl)
  then show ?case by (cases "u = v") (auto simp: stage_def watch_on_def watchable_def)
next
  case (delete v st p)
  then show ?case by (cases "u = v") (auto simp: stage_def)
next
  case (unsee v st)
  then show ?case by (cases "u = v") (auto simp: stage_def)
next
  case (requeue v st)
  then show ?case by (cases "u = v") (auto simp: stage_def)
next
  case (drop_subsumed v st)
  then show ?case by (cases "u = v") (auto simp: stage_def)
next
  case (set_unit v st pol)
  then show ?case by (cases "u = v") (auto simp: stage_def)
next
  case (see v st pol)
  then show ?case by (cases "u = v") (auto simp: stage_def)
next
  case (forward st cl)
  then show ?case by simp
qed

lemma change_impure:
  "change st st1 \<Longrightarrow> u < length (vars st) \<Longrightarrow> stage (vars st ! u) = 2 \<Longrightarrow>
   stage (vars st1 ! u) = 2"
  using change_stage[of st st1 u] by (auto simp: stage_def split: if_splits)

lemma changes_impure:
  "change\<^sup>*\<^sup>* st st1 \<Longrightarrow> u < length (vars st) \<Longrightarrow> stage (vars st ! u) = 2 \<Longrightarrow>
   stage (vars st1 ! u) = 2"
proof (induction rule: rtranclp_induct)
  case base
  then show ?case by simp
next
  case (step y z)
  then show ?case using change_impure[of y z u] changes_length[of st y] by simp
qed

lemma tryWatchOrSubsume_stage:
  assumes "tryWatchOrSubsume cl fv st = Inr (b, st1)" and "u < length (vars st)"
  shows "stage (vars st ! u) \<le> stage (vars st1 ! u)"
  using assms(1)
proof (cases rule: tryWatchOrSubsume_cases)
  case (on_var lit)
  then show ?thesis using assms(2)
    by (cases "u = var lit") (auto simp: stage_def watch_on_def watchable_def)
qed simp_all

lemma sweep_loop_others:
  assumes "sweep_loop v eager n st = Inr (c, st1)"
  shows "length (vars st1) = length (vars st) \<and>
         (\<forall>u<length (vars st). u \<noteq> v \<longrightarrow> stage (vars st ! u) \<le> stage (vars st1 ! u))"
  using assms
proof (induction n arbitrary: st)
  case 0
  then show ?case by simp
next
  case (Suc n)
  let ?W = "watched (vars st ! v)"
  let ?p = "length ?W - Suc n"
  from Suc.prems obtain moved st2 where
    t: "tryWatchOrSubsume (?W ! ?p) v st = Inr (moved, st2)"
    by (auto simp: Let_def split: sum.splits)
  have l2: "length (vars st2) = length (vars st)" using t by (rule tryWatchOrSubsume_length)
  have s2: "\<forall>u<length (vars st). stage (vars st ! u) \<le> stage (vars st2 ! u)"
    using tryWatchOrSubsume_stage[OF t] by simp
  let ?st3 = "setVar st2 v ((vars st2 ! v)\<lparr>watched := stack_del (watched (vars st2 ! v)) ?p\<rparr>)"
  have e: "length (watched (vars st2 ! v)) = length ?W"
    using Suc.prems t by (auto simp: Let_def split: if_splits)
  consider (del) "sweep_loop v eager n ?st3 = Inr (c, st1)"
    | (keep) "sweep_loop v eager n st2 = Inr (c, st1)"
    | (stop) "st1 = st2"
    using Suc.prems t e by (cases moved; cases eager) (auto simp: Let_def)
  then show ?case
  proof cases
    case del
    from Suc.IH[OF del] have "length (vars st1) = length (vars st)"
      "\<forall>u<length (vars st). u \<noteq> v \<longrightarrow> stage (vars ?st3 ! u) \<le> stage (vars st1 ! u)"
      using l2 by simp_all
    moreover have "\<forall>u<length (vars st). u \<noteq> v \<longrightarrow> vars ?st3 ! u = vars st2 ! u" by simp
    ultimately show ?thesis using s2 by (metis order_trans)
  next
    case keep
    from Suc.IH[OF keep] show ?thesis using l2 s2 by (metis order_trans)
  next
    case stop
    then show ?thesis using l2 s2 by simp
  qed
qed


lemma sweep_example_run: "tryToSweepPure 0 False sweep_example = Inr (True, swept_example)"
  by (simp add: tryToSweepPure_def sweep_example_def swept_example_def pure_var_def newVarInfo_def
        tryWatchOrSubsume_def setVar_def stack_del_def Let_def)

lemma processUnprocessed_Nil: "unprocessed st = [] \<Longrightarrow> processUnprocessed st = Inr st"
  by (subst processUnprocessed.simps) simp

lemma processUnprocessed_Cons:
  "unprocessed st = cl # rest \<Longrightarrow>
   processUnprocessed st =
     (case processClause cl (st\<lparr>unprocessed := rest\<rparr>) of
        Inl e \<Rightarrow> Inl e | Inr st1 \<Rightarrow> processUnprocessed st1)"
  by (subst processUnprocessed.simps) simp

lemma processUnprocessed_rule:
  assumes "processUnprocessed st = Inr st1"
    and base: "\<And>s. unprocessed s = [] \<Longrightarrow> P s s"
    and step: "\<And>s cl rest s2 s3. unprocessed s = cl # rest \<Longrightarrow>
                 processClause cl (s\<lparr>unprocessed := rest\<rparr>) = Inr s2 \<Longrightarrow>
                 processUnprocessed s2 = Inr s3 \<Longrightarrow> P s2 s3 \<Longrightarrow> P s s3"
  shows "P st st1"
  using assms(1)
proof (induction st rule: processUnprocessed.induct)
  case (1 st)
  show ?case
  proof (cases "unprocessed st")
    case Nil
    then have "st1 = st" using "1.prems" by (simp add: processUnprocessed_Nil)
    then show ?thesis using base Nil by simp
  next
    case (Cons cl rest)
    then obtain st2 where p: "processClause cl (st\<lparr>unprocessed := rest\<rparr>) = Inr st2"
      and q: "processUnprocessed st2 = Inr st1"
      using "1.prems" by (auto simp: processUnprocessed_Cons split: sum.splits)
    have "P st2 st1" using "1.IH"[OF Cons p q] .
    then show ?thesis using step[OF Cons p q] by simp
  qed
qed

lemma processUnprocessed_empties:
  "processUnprocessed st = Inr st1 \<Longrightarrow> unprocessed st1 = []"
  by (erule processUnprocessed_rule) simp_all

lemma processUnprocessed_impure:
  assumes "processUnprocessed st = Inr st1"
  shows "length (vars st1) = length (vars st) \<and>
         (\<forall>u<length (vars st). stage (vars st ! u) = 2 \<longrightarrow> stage (vars st1 ! u) = 2)"
  using assms
proof (rule processUnprocessed_rule)
  fix s cl rest s2 s3
  assume p: "processClause cl (s\<lparr>unprocessed := rest\<rparr>) = Inr s2"
    and ih: "length (vars s3) = length (vars s2) \<and>
         (\<forall>u<length (vars s2). stage (vars s2 ! u) = 2 \<longrightarrow> stage (vars s3 ! u) = 2)"
  have c: "change\<^sup>*\<^sup>* (s\<lparr>unprocessed := rest\<rparr>) s2" using p by (rule processClause_changes)
  have l: "length (vars s2) = length (vars s)" using changes_length[OF c] by simp
  have "\<forall>u<length (vars s). stage (vars s ! u) = 2 \<longrightarrow> stage (vars s2 ! u) = 2"
    using changes_impure[OF c] by simp
  then show "length (vars s3) = length (vars s) \<and>
         (\<forall>u<length (vars s). stage (vars s ! u) = 2 \<longrightarrow> stage (vars s3 ! u) = 2)"
    using ih l by simp
qed simp

text \<open>
  Claim C7. \<open>tryWatchOrSubsume\<close> with the forbidden variable \<open>v\<close> leaves the entry of
  \<open>v\<close> as it is, so during \<open>tryToSweepPure(v, eager)\<close> no clause is watched on \<open>v\<close>
  again: the watched clauses of \<open>v\<close> afterwards are among those before. When the sweep
  returns true, \<open>v\<close> has no watched clause and no unit and is unseen again, and it was
  not impure before. Otherwise the stage of \<open>v\<close> is unchanged; the stage of every other
  variable can only advance; and an impure variable stays impure, through a sweep as
  through a whole run of \<open>processUnprocessed\<close>.
\<close>

theorem tryToSweepPure_never_rewatches:
  assumes "tryToSweepPure v eager st = Inr (swept, st1)"
  shows "(\<forall>cl s b s1. tryWatchOrSubsume cl v s = Inr (b, s1) \<longrightarrow> vars s1 ! v = vars s ! v) \<and>
         mset (watched (vars st1 ! v)) \<subseteq># mset (watched (vars st ! v)) \<and>
         (swept \<longrightarrow> watched (vars st1 ! v) = [] \<and> unit (vars st1 ! v) = None \<and>
                    unseen (vars st1 ! v) \<and> stage (vars st ! v) \<le> 1 \<and> stage (vars st1 ! v) = 0) \<and>
         (\<not> swept \<longrightarrow> stage (vars st1 ! v) = stage (vars st ! v)) \<and>
         (\<forall>u<length (vars st). u \<noteq> v \<longrightarrow> stage (vars st ! u) \<le> stage (vars st1 ! u)) \<and>
         (\<forall>u<length (vars st). stage (vars st ! u) = 2 \<longrightarrow> stage (vars st1 ! u) = 2) \<and>
         (\<forall>s s1 u. processUnprocessed s = Inr s1 \<and> u < length (vars s) \<and> stage (vars s ! u) = 2
            \<longrightarrow> stage (vars s1 ! u) = 2)"
proof -
  note r = tryToSweepPure_result[OF assms]
  have v: "v < length (vars st)" and pure: "isPure (vars st ! v)" using r by simp_all
  have f: "same_flags (vars st ! v) (vars st1 ! v)"
    "unseen (vars st1 ! v) = (swept \<or> unseen (vars st ! v))" using r by simp_all
  have others: "\<forall>u<length (vars st). u \<noteq> v \<longrightarrow> stage (vars st ! u) \<le> stage (vars st1 ! u)"
  proof (cases "\<not> eager \<and> unit (vars st ! v) \<noteq> None")
    case True
    then have "st1 = st" using assms v pure by (auto simp: tryToSweepPure_def)
    then show ?thesis by simp
  next
    case False
    then obtain completed st2 where
      l: "sweep_loop v eager (length (watched (vars st ! v))) st = Inr (completed, st2)"
      and e: "st1 = st2 \<or> st1 = setVar st2 v ((vars st2 ! v)\<lparr>unseen := True\<rparr>)"
      using assms v pure by (auto simp: tryToSweepPure_def split: sum.splits if_splits)
    have "\<forall>u<length (vars st). u \<noteq> v \<longrightarrow> vars st1 ! u = vars st2 ! u"
      using e by auto
    then show ?thesis using sweep_loop_others[OF l] by simp
  qed
  have "\<forall>cl s b s1. tryWatchOrSubsume cl v s = Inr (b, s1) \<longrightarrow> vars s1 ! v = vars s ! v"
    using tryWatchOrSubsume_forbidden by blast
  moreover have "mset (watched (vars st1 ! v)) \<subseteq># mset (watched (vars st ! v))" using r by simp
  moreover have "swept \<longrightarrow> watched (vars st1 ! v) = [] \<and> unit (vars st1 ! v) = None \<and>
                    unseen (vars st1 ! v) \<and> stage (vars st ! v) \<le> 1 \<and> stage (vars st1 ! v) = 0"
    using r pure by (simp add: stage_def)
  moreover have "\<not> swept \<longrightarrow> stage (vars st1 ! v) = stage (vars st ! v)"
    using f by (simp add: stage_def same_flags_def)
  moreover have "\<forall>u<length (vars st). stage (vars st ! u) = 2 \<longrightarrow> stage (vars st1 ! u) = 2"
    using changes_impure r by blast
  moreover have "\<forall>s s1 u. processUnprocessed s = Inr s1 \<and> u < length (vars s) \<and>
      stage (vars s ! u) = 2 \<longrightarrow> stage (vars s1 ! u) = 2"
    using processUnprocessed_impure by blast
  ultimately show ?thesis using others by blast
qed

theorem tryToSweepPure_never_rewatches_witness:
  "tryToSweepPure 0 False sweep_example = Inr (True, swept_example) \<and>
   mset (watched (vars swept_example ! 0)) \<subseteq># mset (watched (vars sweep_example ! 0)) \<and>
   watched (vars swept_example ! 0) = [] \<and> unit (vars swept_example ! 0) = None \<and>
   unseen (vars swept_example ! 0) \<and>
   stage (vars sweep_example ! 0) = 1 \<and> stage (vars swept_example ! 0) = 0 \<and>
   stage (vars sweep_example ! 1) = 0 \<and> stage (vars swept_example ! 1) = 1"
  using tryToSweepPure_never_rewatches[OF sweep_example_run] sweep_example_run
  by (simp add: sweep_example_def swept_example_def pure_var_def newVarInfo_def stage_def)


subsection \<open>Assumptions\<close>

text \<open>
  The clause-processing functions leave the assumption marks of the variables alone.
\<close>

definition same_marks :: "solver \<Rightarrow> solver \<Rightarrow> bool" where
  "same_marks st st1 \<longleftrightarrow>
     length (vars st1) = length (vars st) \<and>
     (\<forall>v<length (vars st).
        hasAssumption (vars st1 ! v) = hasAssumption (vars st ! v) \<and>
        assumedPolarity (vars st1 ! v) = assumedPolarity (vars st ! v))"

text \<open>
  An inner solver for the examples: its status is unsatisfiable as soon as the assumptions
  made since the last retraction contain a literal and its opposite.
\<close>

fun assumed_literals :: "inner_call list \<Rightarrow> SATLiteral list \<Rightarrow> SATLiteral list" where
  "assumed_literals [] ls = ls"
| "assumed_literals (InnerAddAssumption l onlyPropagate # calls) ls = assumed_literals calls (l # ls)"
| "assumed_literals (InnerRetractAllAssumptions # calls) ls = assumed_literals calls []"
| "assumed_literals (call # calls) ls = assumed_literals calls ls"

definition example_status :: "inner_call list \<Rightarrow> Status" where
  "example_status calls =
     (if \<exists>l\<in>set (assumed_literals calls []). opposite l \<in> set (assumed_literals calls [])
      then SAT_UNSATISFIABLE else SAT_UNKNOWN)"

definition no_assignment :: "inner_call list \<Rightarrow> nat \<Rightarrow> MaybeBool" where
  "no_assignment calls v = None"

definition example_inner :: inner_solver where
  "example_inner = \<lparr>innerStatus = example_status, innerAssignment = no_assignment\<rparr>"

definition assumed_example :: "inner_call list \<Rightarrow> solver" where
  "assumed_example calls =
     \<lparr>inner = calls, unprocessed = [], toBeAdded = [],
      vars = [(newVarInfo False False False)\<lparr>hasAssumption := True, assumedPolarity := False\<rparr>],
      assumptions = [SATLiteral 0 False]\<rparr>"

definition fresh_example :: solver where
  "fresh_example =
     \<lparr>inner = [], unprocessed = [], toBeAdded = [],
      vars = [newVarInfo False False False], assumptions = []\<rparr>"


lemma same_marks_refl: "same_marks st st"
  by (simp add: same_marks_def)

lemma same_marks_trans: "same_marks st st1 \<Longrightarrow> same_marks st1 st2 \<Longrightarrow> same_marks st st2"
  by (simp add: same_marks_def)

lemma same_marks_setVar:
  assumes "hasAssumption vi = hasAssumption (vars st ! v)"
    and "assumedPolarity vi = assumedPolarity (vars st ! v)"
  shows "same_marks st (setVar st v vi)"
  unfolding same_marks_def
proof (intro conjI allI impI)
  show "length (vars (setVar st v vi)) = length (vars st)" by simp
next
  fix u assume "u < length (vars st)"
  then show "hasAssumption (vars (setVar st v vi) ! u) = hasAssumption (vars st ! u)"
    using assms(1) by (cases "u = v") simp_all
next
  fix u assume "u < length (vars st)"
  then show "assumedPolarity (vars (setVar st v vi) ! u) = assumedPolarity (vars st ! u)"
    using assms(2) by (cases "u = v") simp_all
qed

lemma change_marks: "change st st1 \<Longrightarrow> same_marks st st1"
proof (induction rule: change.induct)
  case (watch v st pol cl)
  show ?case by (rule same_marks_setVar) (simp_all add: watch_on_def)
next
  case (requeue v st)
  have "same_marks st (setVar st v ((vars st ! v)\<lparr>watched := [], isPure := False\<rparr>))"
    by (rule same_marks_setVar) simp_all
  then show ?case by (simp add: same_marks_def)
next
  case (forward st cl)
  show ?case by (simp add: same_marks_def)
qed (rule same_marks_setVar; simp)+

lemma changes_marks: "change\<^sup>*\<^sup>* st st1 \<Longrightarrow> same_marks st st1"
  by (induction rule: rtranclp_induct) (auto intro: same_marks_refl same_marks_trans change_marks)

lemma processUnprocessed_marks: "processUnprocessed st = Inr st1 \<Longrightarrow> same_marks st st1"
proof (erule processUnprocessed_rule)
  fix s cl rest s2 s3
  assume "processClause cl (s\<lparr>unprocessed := rest\<rparr>) = Inr s2" and ih: "same_marks s2 s3"
  then have "same_marks (s\<lparr>unprocessed := rest\<rparr>) s2"
    by (intro changes_marks processClause_changes)
  then have "same_marks s s2" by (simp add: same_marks_def)
  then show "same_marks s s3" using ih by (rule same_marks_trans)
qed (rule same_marks_refl)

lemma vars_restoreAssumptions [simp]: "vars (restoreAssumptions op ls st) = vars st"
  by (induction ls arbitrary: st) (simp_all add: addInnerAssumption_def)

lemma addAssumption_fresh_cases:
  assumes "addAssumption I lit op st = Inr st1" and "\<not> hasAssumption (vars st ! var lit)"
  obtains (unchanged) "st1 = (setVar st (var lit)
              ((vars st ! var lit)\<lparr>hasAssumption := True, assumedPolarity := polarity lit\<rparr>))
            \<lparr>assumptions := lit # assumptions st\<rparr>"
  | (forwarded) "st1 = addInnerAssumption lit op ((setVar st (var lit)
              ((vars st ! var lit)\<lparr>hasAssumption := True, assumedPolarity := polarity lit\<rparr>))
            \<lparr>assumptions := lit # assumptions st\<rparr>)"
  | (swept) st2 where "tryToSweepPure (var lit) False ((setVar st (var lit)
              ((vars st ! var lit)\<lparr>hasAssumption := True, assumedPolarity := polarity lit\<rparr>))
            \<lparr>assumptions := lit # assumptions st\<rparr>) = Inr (True, st2)"
          "st1 = addInnerAssumption lit op st2"
  | (impure) st2 st3 st4 where "tryToSweepPure (var lit) False ((setVar st (var lit)
              ((vars st ! var lit)\<lparr>hasAssumption := True, assumedPolarity := polarity lit\<rparr>))
            \<lparr>assumptions := lit # assumptions st\<rparr>) = Inr (False, st2)"
          "makeVarNonPure (var lit) st2 = Inr st3" "processUnprocessed st3 = Inr st4"
          "st1 = restoreAssumptions op (rev (assumptions st4))
                   (flushClausesToInner True (st4\<lparr>inner := inner st4 @ [InnerRetractAllAssumptions]\<rparr>))"
proof -
  have v: "var lit < length (vars st)"
    using assms(1) by (auto simp: addAssumption_def split: if_splits)
  let ?s = "(setVar st (var lit)
              ((vars st ! var lit)\<lparr>hasAssumption := True, assumedPolarity := polarity lit\<rparr>))
            \<lparr>assumptions := lit # assumptions st\<rparr>"
  let ?vi = "vars ?s ! var lit"
  show ?thesis
  proof (cases "innerStatus I (inner ?s) = SAT_UNSATISFIABLE")
    case True
    then have "st1 = ?s" using assms v by (simp add: addAssumption_def Let_def)
    then show ?thesis by (rule unchanged)
  next
    case ns: False
    show ?thesis
    proof (cases "unit ?vi \<noteq> None \<or> unseen ?vi \<or> \<not> isPure ?vi")
      case True
      then have "st1 = addInnerAssumption lit op ?s"
        using assms v ns by (auto simp: addAssumption_def Let_def)
      then show ?thesis by (rule forwarded)
    next
      case np: False
      show ?thesis
      proof (cases "isPurePositive ?vi = polarity lit")
        case True
        then have "st1 = ?s" using assms v ns np by (auto simp: addAssumption_def Let_def)
        then show ?thesis by (rule unchanged)
      next
        case op: False
        have e: "(case tryToSweepPure (var lit) False ?s of
                 Inl e \<Rightarrow> Inl e
               | Inr (swept, st2) \<Rightarrow>
                   if swept then Inr (addInnerAssumption lit op st2)
                   else
                     (case makeVarNonPure (var lit) st2 of
                        Inl e \<Rightarrow> Inl e
                      | Inr st3 \<Rightarrow>
                          (case processUnprocessed st3 of
                             Inl e \<Rightarrow> Inl e
                           | Inr st4 \<Rightarrow>
                               (let st5 = flushClausesToInner True
                                            (st4\<lparr>inner := inner st4 @ [InnerRetractAllAssumptions]\<rparr>)
                                in Inr (restoreAssumptions op
                                          (rev (assumptions st5)) st5))))) = Inr st1"
          using assms v ns np op by (auto simp: addAssumption_def Let_def)
        then obtain sw st2 where t: "tryToSweepPure (var lit) False ?s = Inr (sw, st2)"
          by (cases "tryToSweepPure (var lit) False ?s") auto
        show ?thesis
        proof (cases sw)
          case True
          then have "st1 = addInnerAssumption lit op st2" using e t by simp
          then show ?thesis using t True swept by simp
        next
          case nsw: False
          then obtain st3 where m: "makeVarNonPure (var lit) st2 = Inr st3"
            using e t by (cases "makeVarNonPure (var lit) st2") auto
          then obtain st4 where q: "processUnprocessed st3 = Inr st4"
            using e t nsw by (cases "processUnprocessed st3") auto
          have "st1 = restoreAssumptions op (rev (assumptions st4))
                   (flushClausesToInner True (st4\<lparr>inner := inner st4 @ [InnerRetractAllAssumptions]\<rparr>))"
            using e t nsw m q by (simp add: Let_def flushClausesToInner_def)
          then show ?thesis using t nsw m q impure by simp
        qed
      qed
    qed
  qed
qed

lemma addAssumption_marks:
  assumes "addAssumption I lit op st = Inr st1" and "\<not> hasAssumption (vars st ! var lit)"
  shows "var lit < length (vars st1) \<and> hasAssumption (vars st1 ! var lit) \<and>
         assumedPolarity (vars st1 ! var lit) = polarity lit"
proof -
  have v: "var lit < length (vars st)" using assms(1) by (auto simp: addAssumption_def split: if_splits)
  let ?s = "(setVar st (var lit)
              ((vars st ! var lit)\<lparr>hasAssumption := True, assumedPolarity := polarity lit\<rparr>))
            \<lparr>assumptions := lit # assumptions st\<rparr>"
  have s: "var lit < length (vars ?s)" "hasAssumption (vars ?s ! var lit)"
    "assumedPolarity (vars ?s ! var lit) = polarity lit"
    using v by simp_all
  have "same_marks ?s st1"
    using assms
  proof (cases rule: addAssumption_fresh_cases)
    case unchanged
    then show ?thesis by (simp add: same_marks_refl)
  next
    case forwarded
    then show ?thesis by (simp add: same_marks_def addInnerAssumption_def)
  next
    case (swept st2)
    have "same_marks ?s st2" using tryToSweepPure_result[OF swept(1)] changes_marks by blast
    then show ?thesis using swept(2) by (simp add: same_marks_def addInnerAssumption_def)
  next
    case (impure st2 st3 st4)
    have "same_marks ?s st2" using tryToSweepPure_result[OF impure(1)] changes_marks by blast
    moreover have "same_marks st2 st3" using impure(2) by (intro changes_marks makeVarNonPure_changes)
    moreover have "same_marks st3 st4" using impure(3) by (rule processUnprocessed_marks)
    ultimately have "same_marks ?s st4" by (meson same_marks_trans)
    then show ?thesis using impure(4) by (simp add: same_marks_def flushClausesToInner_def)
  qed
  then show ?thesis using s by (simp add: same_marks_def)
qed

text \<open>
  Claim C6 (as amended). When the variable of \<open>L\<close> does not carry the opposite assumed
  polarity, a call of \<open>addAssumption(L)\<close> that returns leaves a state on which a second
  call (with either flag) changes nothing: the solver, and with it \<open>getAssignment\<close>,
  \<open>getStatus\<close>, \<open>hasAssumptions\<close> and the calls received by the inner solver, are the
  same as after one call. When the variable carries the opposite assumed polarity, each
  call hands the contradicting pair \<open>\<not>L\<close>, \<open>L\<close> to the inner solver, propagating
  only, and leaves the pre-solver's own state as it is; an inner solver that answers
  unsatisfiable to the pair is then in the unsatisfiable state.
\<close>

theorem addAssumption_idempotent:
  "(addAssumption I lit onlyPropagate st = Inr st1 \<and>
    \<not> (hasAssumption (vars st ! var lit) \<and> assumedPolarity (vars st ! var lit) \<noteq> polarity lit)
    \<longrightarrow> addAssumption I lit onlyPropagate2 st1 = Inr st1) \<and>
   (var lit < length (vars st) \<and> hasAssumption (vars st ! var lit) \<and>
    assumedPolarity (vars st ! var lit) \<noteq> polarity lit \<and>
    innerStatus I (inner st @ [InnerAddAssumption (opposite lit) True, InnerAddAssumption lit True])
      = SAT_UNSATISFIABLE
    \<longrightarrow> addAssumption I lit onlyPropagate st =
          Inr (st\<lparr>inner := inner st @ [InnerAddAssumption (opposite lit) True,
                                        InnerAddAssumption lit True]\<rparr>) \<and>
        getStatus I (st\<lparr>inner := inner st @ [InnerAddAssumption (opposite lit) True,
                                               InnerAddAssumption lit True]\<rparr>) = SAT_UNSATISFIABLE)"
proof (intro conjI impI)
  assume a: "addAssumption I lit onlyPropagate st = Inr st1 \<and>
    \<not> (hasAssumption (vars st ! var lit) \<and> assumedPolarity (vars st ! var lit) \<noteq> polarity lit)"
  show "addAssumption I lit onlyPropagate2 st1 = Inr st1"
  proof (cases "hasAssumption (vars st ! var lit)")
    case True
    then have "st1 = st" "var lit < length (vars st)"
      using a by (auto simp: addAssumption_def split: if_splits)
    then show ?thesis using a True by (simp add: addAssumption_def)
  next
    case False
    then have "var lit < length (vars st1) \<and> hasAssumption (vars st1 ! var lit) \<and>
         assumedPolarity (vars st1 ! var lit) = polarity lit"
      using a addAssumption_marks by blast
    then show ?thesis by (simp add: addAssumption_def)
  qed
next
  assume "var lit < length (vars st) \<and> hasAssumption (vars st ! var lit) \<and>
    assumedPolarity (vars st ! var lit) \<noteq> polarity lit \<and>
    innerStatus I (inner st @ [InnerAddAssumption (opposite lit) True, InnerAddAssumption lit True])
      = SAT_UNSATISFIABLE"
  then show "addAssumption I lit onlyPropagate st =
          Inr (st\<lparr>inner := inner st @ [InnerAddAssumption (opposite lit) True,
                                        InnerAddAssumption lit True]\<rparr>)"
    "getStatus I (st\<lparr>inner := inner st @ [InnerAddAssumption (opposite lit) True,
                                               InnerAddAssumption lit True]\<rparr>) = SAT_UNSATISFIABLE"
    by (simp_all add: addAssumption_def addInnerAssumption_def Let_def getStatus_def)
qed

lemma fresh_example_run:
  "addAssumption example_inner (SATLiteral 0 True) False fresh_example =
     Inr \<lparr>inner = [InnerAddAssumption (SATLiteral 0 True) False], unprocessed = [], toBeAdded = [],
          vars = [(newVarInfo False False False)\<lparr>hasAssumption := True, assumedPolarity := True\<rparr>],
          assumptions = [SATLiteral 0 True]\<rparr>"
  by (simp add: addAssumption_def fresh_example_def example_inner_def example_status_def
        newVarInfo_def setVar_def addInnerAssumption_def Let_def)

lemma assumed_example_run:
  "addAssumption example_inner (SATLiteral 0 True) True (assumed_example calls) =
     (if example_status (calls @ [InnerAddAssumption (SATLiteral 0 False) True,
                                  InnerAddAssumption (SATLiteral 0 True) True]) = SAT_UNSATISFIABLE
      then Inr (assumed_example (calls @ [InnerAddAssumption (SATLiteral 0 False) True,
                                          InnerAddAssumption (SATLiteral 0 True) True]))
      else Inl AssertionViolation)"
  by (simp add: addAssumption_def assumed_example_def example_inner_def
        newVarInfo_def addInnerAssumption_def Let_def opposite_def)

lemma example_status_two:
  "example_status [InnerAddAssumption (SATLiteral 0 False) True,
                   InnerAddAssumption (SATLiteral 0 True) True] = SAT_UNSATISFIABLE"
  by (simp add: example_status_def opposite_def)

lemma example_status_four:
  "example_status [InnerAddAssumption (SATLiteral 0 False) True,
                   InnerAddAssumption (SATLiteral 0 True) True,
                   InnerAddAssumption (SATLiteral 0 False) True,
                   InnerAddAssumption (SATLiteral 0 True) True] = SAT_UNSATISFIABLE"
  by (simp add: example_status_def opposite_def)

theorem addAssumption_idempotent_witness:
  "addAssumption example_inner (SATLiteral 0 True) False fresh_example =
     Inr \<lparr>inner = [InnerAddAssumption (SATLiteral 0 True) False], unprocessed = [], toBeAdded = [],
          vars = [(newVarInfo False False False)\<lparr>hasAssumption := True, assumedPolarity := True\<rparr>],
          assumptions = [SATLiteral 0 True]\<rparr> \<and>
   addAssumption example_inner (SATLiteral 0 True) True
     \<lparr>inner = [InnerAddAssumption (SATLiteral 0 True) False], unprocessed = [], toBeAdded = [],
      vars = [(newVarInfo False False False)\<lparr>hasAssumption := True, assumedPolarity := True\<rparr>],
      assumptions = [SATLiteral 0 True]\<rparr> =
     Inr \<lparr>inner = [InnerAddAssumption (SATLiteral 0 True) False], unprocessed = [], toBeAdded = [],
          vars = [(newVarInfo False False False)\<lparr>hasAssumption := True, assumedPolarity := True\<rparr>],
          assumptions = [SATLiteral 0 True]\<rparr> \<and>
   hasAssumption (vars (assumed_example []) ! 0) \<and>
   addAssumption example_inner (SATLiteral 0 True) False (assumed_example []) =
     Inr (assumed_example [InnerAddAssumption (SATLiteral 0 False) True,
                           InnerAddAssumption (SATLiteral 0 True) True]) \<and>
   getStatus example_inner (assumed_example [InnerAddAssumption (SATLiteral 0 False) True,
                           InnerAddAssumption (SATLiteral 0 True) True]) = SAT_UNSATISFIABLE"
proof -
  let ?s1 = "\<lparr>inner = [InnerAddAssumption (SATLiteral 0 True) False], unprocessed = [], toBeAdded = [],
          vars = [(newVarInfo False False False)\<lparr>hasAssumption := True, assumedPolarity := True\<rparr>],
          assumptions = [SATLiteral 0 True]\<rparr>"
  have a: "addAssumption example_inner (SATLiteral 0 True) True ?s1 = Inr ?s1"
    using addAssumption_idempotent[of example_inner "SATLiteral 0 True" False fresh_example ?s1 True]
      fresh_example_run
    by (simp add: fresh_example_def newVarInfo_def)
  have b: "addAssumption example_inner (SATLiteral 0 True) False (assumed_example []) =
          Inr ((assumed_example [])\<lparr>inner := inner (assumed_example []) @
                 [InnerAddAssumption (opposite (SATLiteral 0 True)) True,
                  InnerAddAssumption (SATLiteral 0 True) True]\<rparr>) \<and>
        getStatus example_inner ((assumed_example [])\<lparr>inner := inner (assumed_example []) @
                 [InnerAddAssumption (opposite (SATLiteral 0 True)) True,
                  InnerAddAssumption (SATLiteral 0 True) True]\<rparr>) = SAT_UNSATISFIABLE"
    using addAssumption_idempotent[of example_inner "SATLiteral 0 True" False "assumed_example []"]
      example_status_two
    by (simp add: assumed_example_def newVarInfo_def example_inner_def opposite_def)
  show ?thesis using fresh_example_run a b
    by (simp add: assumed_example_def opposite_def)
qed

text \<open>
  Claim C6 as stated fails for a variable that carries the opposite assumed polarity: the
  second call sends the pair \<open>\<not>L\<close>, \<open>L\<close> to the inner solver once more, so the inner
  solver receives four assumptions instead of two.
\<close>

theorem addAssumption_twice_counterexample:
  "addAssumption example_inner (SATLiteral 0 True) True (assumed_example []) =
     Inr (assumed_example [InnerAddAssumption (SATLiteral 0 False) True,
                           InnerAddAssumption (SATLiteral 0 True) True]) \<and>
   addAssumption example_inner (SATLiteral 0 True) True
     (assumed_example [InnerAddAssumption (SATLiteral 0 False) True,
                       InnerAddAssumption (SATLiteral 0 True) True]) =
     Inr (assumed_example [InnerAddAssumption (SATLiteral 0 False) True,
                           InnerAddAssumption (SATLiteral 0 True) True,
                           InnerAddAssumption (SATLiteral 0 False) True,
                           InnerAddAssumption (SATLiteral 0 True) True]) \<and>
   inner (assumed_example [InnerAddAssumption (SATLiteral 0 False) True,
                           InnerAddAssumption (SATLiteral 0 True) True,
                           InnerAddAssumption (SATLiteral 0 False) True,
                           InnerAddAssumption (SATLiteral 0 True) True]) \<noteq>
   inner (assumed_example [InnerAddAssumption (SATLiteral 0 False) True,
                           InnerAddAssumption (SATLiteral 0 True) True])"
  using example_status_two example_status_four
  by (simp add: assumed_example_run) (simp add: assumed_example_def)


subsection \<open>Adding clauses\<close>

text \<open>
  The invariant of the entries: an unseen variable has no watched clause; a clause
  watched on a variable contains the literal of that variable with its pure polarity; the
  unit stored for a variable is a one-literal clause on that variable.
\<close>

definition var_inv :: "nat \<Rightarrow> VarInfo \<Rightarrow> bool" where
  "var_inv v vi \<longleftrightarrow>
     (unseen vi \<longrightarrow> watched vi = []) \<and>
     (\<forall>c\<in>set (watched vi). SATLiteral v (isPurePositive vi) \<in> set c) \<and>
     (\<forall>u. unit vi = Some u \<longrightarrow> (\<exists>pol. u = [SATLiteral v pol]))"

definition solver_inv :: "solver \<Rightarrow> bool" where
  "solver_inv st \<longleftrightarrow> (\<forall>v<length (vars st). var_inv v (vars st ! v))"

text \<open>
  A clause is parked when some variable watches it; it is accounted for when it is in one
  of the two queues, parked, or subsumed by a unit.
\<close>

definition parked :: "solver \<Rightarrow> SATClause \<Rightarrow> bool" where
  "parked st c \<longleftrightarrow> (\<exists>v<length (vars st). c \<in> set (watched (vars st ! v)))"

definition accounted :: "solver \<Rightarrow> SATClause \<Rightarrow> bool" where
  "accounted st c \<longleftrightarrow>
     c \<in> set (unprocessed st) \<or> c \<in> set (toBeAdded st) \<or> parked st c \<or> subsumed st c"

definition sound_step :: "solver \<Rightarrow> solver \<Rightarrow> bool" where
  "sound_step st st1 \<longleftrightarrow>
     (solver_inv st \<longrightarrow> solver_inv st1 \<and> (\<forall>c. accounted st c \<longrightarrow> accounted st1 c))"

text \<open>A solver with three fresh variables, for the examples.\<close>

definition three_vars :: solver where
  "three_vars =
     \<lparr>inner = [InnerEnsureVarCnt 3], unprocessed = [], toBeAdded = [],
      vars = [newVarInfo False False False, newVarInfo False False False,
              newVarInfo False False False],
      assumptions = []\<rparr>"


lemma sound_step_refl: "sound_step st st"
  by (simp add: sound_step_def)

lemma sound_step_trans: "sound_step st st1 \<Longrightarrow> sound_step st1 st2 \<Longrightarrow> sound_step st st2"
  by (auto simp: sound_step_def)

lemma solver_inv_setVar:
  assumes "solver_inv st" and "var_inv v vi"
  shows "solver_inv (setVar st v vi)"
  unfolding solver_inv_def
proof (intro allI impI)
  fix u assume "u < length (vars (setVar st v vi))"
  then have u: "u < length (vars st)" by simp
  show "var_inv u (vars (setVar st v vi) ! u)"
  proof (cases "u = v")
    case True
    then show ?thesis using u assms(2) by simp
  next
    case False
    then show ?thesis using u assms(1) by (simp add: solver_inv_def)
  qed
qed

lemma accounted_mono:
  assumes "length (vars st1) = length (vars st)"
    and "set (unprocessed st) \<subseteq> set (unprocessed st1)"
    and "set (toBeAdded st) \<subseteq> set (toBeAdded st1)"
    and "\<And>u c. u < length (vars st) \<Longrightarrow> c \<in> set (watched (vars st ! u)) \<Longrightarrow> accounted st1 c"
    and "\<And>u pol. u < length (vars st) \<Longrightarrow> unit_subsumes (vars st ! u) pol \<Longrightarrow>
           unit_subsumes (vars st1 ! u) pol"
    and "accounted st c"
  shows "accounted st1 c"
proof -
  from assms(6) consider "c \<in> set (unprocessed st)" | "c \<in> set (toBeAdded st)"
    | "parked st c" | "subsumed st c"
    by (auto simp: accounted_def)
  then show ?thesis
  proof cases
    case 1
    then show ?thesis using assms(2) by (auto simp: accounted_def)
  next
    case 2
    then show ?thesis using assms(3) by (auto simp: accounted_def)
  next
    case 3
    then show ?thesis using assms(4) by (auto simp: parked_def)
  next
    case 4
    then have "subsumed st1 c" using assms(1,5) by (auto simp: subsumed_def)
    then show ?thesis by (simp add: accounted_def)
  qed
qed

text \<open>Accounting when one entry is replaced.\<close>

lemma accounted_setVar:
  assumes "v < length (vars st)"
    and "\<And>c. c \<in> set (watched (vars st ! v)) \<Longrightarrow> accounted (setVar st v vi) c"
    and "\<And>pol. unit_subsumes (vars st ! v) pol \<Longrightarrow> unit_subsumes vi pol"
    and "accounted st c"
  shows "accounted (setVar st v vi) c"
proof (rule accounted_mono[OF _ _ _ _ _ assms(4)])
  fix u c assume u: "u < length (vars st)" and c: "c \<in> set (watched (vars st ! u))"
  show "accounted (setVar st v vi) c"
  proof (cases "u = v")
    case True
    then show ?thesis using assms(2) c by simp
  next
    case False
    then have "parked (setVar st v vi) c" using u c by (auto simp: parked_def)
    then show ?thesis by (simp add: accounted_def)
  qed
next
  fix u pol assume "u < length (vars st)" "unit_subsumes (vars st ! u) pol"
  then show "unit_subsumes (vars (setVar st v vi) ! u) pol"
    using assms(3) by (cases "u = v") simp_all
qed simp_all

lemma parked_setVar_self:
  "v < length (vars st) \<Longrightarrow> c \<in> set (watched vi) \<Longrightarrow> parked (setVar st v vi) c"
  by (auto simp: parked_def)

lemma parked_accounted: "parked st c \<Longrightarrow> accounted st c"
  by (simp add: accounted_def)

lemma subsumed_accounted: "subsumed st c \<Longrightarrow> accounted st c"
  by (simp add: accounted_def)

lemma subsumed_setVar:
  assumes "unit vi = unit (vars st ! v)" and "subsumed st c"
  shows "subsumed (setVar st v vi) c"
proof -
  from assms(2) obtain l where l: "l \<in> set c" "var l < length (vars st)"
    "unit_subsumes (vars st ! var l) (polarity l)"
    by (auto simp: subsumed_def)
  have "unit_subsumes (vars (setVar st v vi) ! var l) (polarity l)"
    using l(2,3) assms(1) by (cases "var l = v") (simp_all add: unit_subsumes_def)
  then show ?thesis using l(1,2) by (auto simp: subsumed_def)
qed

lemma sound_watch:
  assumes "v < length (vars st)" and "watchable (vars st ! v) pol" and "SATLiteral v pol \<in> set cl"
  shows "sound_step st (setVar st v (watch_on cl pol (vars st ! v)))"
  unfolding sound_step_def
proof (intro impI conjI allI)
  assume inv: "solver_inv st"
  then have vi: "var_inv v (vars st ! v)" using assms(1) by (simp add: solver_inv_def)
  have "var_inv v (watch_on cl pol (vars st ! v))"
    using vi assms(2,3) by (auto simp: var_inv_def watch_on_def watchable_def)
  then show "solver_inv (setVar st v (watch_on cl pol (vars st ! v)))"
    using inv by (rule solver_inv_setVar[rotated])
next
  fix c assume "accounted st c"
  then show "accounted (setVar st v (watch_on cl pol (vars st ! v))) c"
  proof (rule accounted_setVar[OF assms(1), rotated 2])
    fix d assume "d \<in> set (watched (vars st ! v))"
    then have "parked (setVar st v (watch_on cl pol (vars st ! v))) d"
      using assms(1) by (intro parked_setVar_self) (simp_all add: watch_on_def)
    then show "accounted (setVar st v (watch_on cl pol (vars st ! v))) d" by (rule parked_accounted)
  next
    fix q assume "unit_subsumes (vars st ! v) q"
    then show "unit_subsumes (watch_on cl pol (vars st ! v)) q"
      by (simp add: unit_subsumes_def watch_on_def)
  qed
qed

lemma sound_delete:
  assumes "v < length (vars st)" and "p < length (watched (vars st ! v))"
    and "subsumed st (watched (vars st ! v) ! p) \<or>
       (\<exists>u<length (vars st). u \<noteq> v \<and> watched (vars st ! v) ! p \<in> set (watched (vars st ! u)))"
  shows "sound_step st (setVar st v ((vars st ! v)\<lparr>watched := stack_del (watched (vars st ! v)) p\<rparr>))"
    (is "sound_step st ?st1")
  unfolding sound_step_def
proof (intro impI conjI allI)
  let ?W = "watched (vars st ! v)"
  assume inv: "solver_inv st"
  then have vi: "var_inv v (vars st ! v)" using assms(1) by (simp add: solver_inv_def)
  have "var_inv v ((vars st ! v)\<lparr>watched := stack_del ?W p\<rparr>)"
    using vi assms(2) set_stack_del_subset[OF assms(2)] by (auto simp: var_inv_def)
  then show "solver_inv ?st1" using inv by (rule solver_inv_setVar[rotated])
next
  let ?W = "watched (vars st ! v)"
  fix c assume "accounted st c"
  then show "accounted ?st1 c"
  proof (rule accounted_setVar[OF assms(1), rotated 2])
    fix d assume d: "d \<in> set ?W"
    show "accounted ?st1 d"
    proof (cases "d \<in> set (stack_del ?W p)")
      case True
      then have "parked ?st1 d" using assms(1) by (intro parked_setVar_self) simp_all
      then show ?thesis by (rule parked_accounted)
    next
      case False
      then have e: "d = ?W ! p" using d set_stack_del[OF assms(2)] by auto
      from assms(3) show ?thesis
      proof
        assume "subsumed st (?W ! p)"
        then have "subsumed ?st1 d" unfolding e by (intro subsumed_setVar) simp_all
        then show ?thesis by (rule subsumed_accounted)
      next
        assume "\<exists>u<length (vars st). u \<noteq> v \<and> ?W ! p \<in> set (watched (vars st ! u))"
        then have "parked ?st1 d" unfolding e by (auto simp: parked_def)
        then show ?thesis by (rule parked_accounted)
      qed
    qed
  next
    fix q assume "unit_subsumes (vars st ! v) q"
    then show "unit_subsumes ((vars st ! v)\<lparr>watched := stack_del ?W p\<rparr>) q"
      by (simp add: unit_subsumes_def)
  qed
qed

text \<open>Changes of an entry that keep its watched clauses and do not remove its unit.\<close>

lemma sound_keep:
  assumes "v < length (vars st)" and "watched vi = watched (vars st ! v)"
    and "\<And>pol. unit_subsumes (vars st ! v) pol \<Longrightarrow> unit_subsumes vi pol"
    and "var_inv v (vars st ! v) \<Longrightarrow> var_inv v vi"
  shows "sound_step st (setVar st v vi)"
  unfolding sound_step_def
proof (intro impI conjI allI)
  assume inv: "solver_inv st"
  then have "var_inv v vi" using assms(1,4) by (simp add: solver_inv_def)
  then show "solver_inv (setVar st v vi)" using inv by (rule solver_inv_setVar[rotated])
next
  fix c assume "accounted st c"
  then show "accounted (setVar st v vi) c"
  proof (rule accounted_setVar[OF assms(1), rotated 2])
    fix d assume "d \<in> set (watched (vars st ! v))"
    then have "parked (setVar st v vi) d"
      using assms(1,2) by (intro parked_setVar_self) simp_all
    then show "accounted (setVar st v vi) d" by (rule parked_accounted)
  qed (rule assms(3))
qed

lemma sound_requeue:
  assumes "v < length (vars st)"
  shows "sound_step st ((setVar st v ((vars st ! v)\<lparr>watched := [], isPure := False\<rparr>))
                 \<lparr>unprocessed := loadFromIterator (unprocessed st) (watched (vars st ! v))\<rparr>)"
    (is "sound_step st ?st1")
  unfolding sound_step_def
proof (intro impI conjI allI)
  assume inv: "solver_inv st"
  then have vi: "var_inv v (vars st ! v)" using assms(1) by (simp add: solver_inv_def)
  have "var_inv v ((vars st ! v)\<lparr>watched := [], isPure := False\<rparr>)"
    using vi by (simp add: var_inv_def)
  then have "solver_inv (setVar st v ((vars st ! v)\<lparr>watched := [], isPure := False\<rparr>))"
    using inv by (rule solver_inv_setVar[rotated])
  then show "solver_inv ?st1" by (simp add: solver_inv_def)
next
  fix c assume "accounted st c"
  then show "accounted ?st1 c"
  proof (rule accounted_mono[rotated 5])
    fix u d assume u: "u < length (vars st)" and d: "d \<in> set (watched (vars st ! u))"
    show "accounted ?st1 d"
    proof (cases "u = v")
      case True
      then show ?thesis using d by (simp add: accounted_def loadFromIterator_def)
    next
      case False
      then have "parked ?st1 d" using u d by (auto simp: parked_def)
      then show ?thesis by (rule parked_accounted)
    qed
  next
    fix u pol assume "u < length (vars st)" "unit_subsumes (vars st ! u) pol"
    then show "unit_subsumes (vars ?st1 ! u) pol"
      by (cases "u = v") (simp_all add: unit_subsumes_def)
  qed (simp_all add: loadFromIterator_def)
qed

lemma sound_drop_subsumed:
  assumes "v < length (vars st)"
    and "unit_subsumes (vars st ! v) (isPurePositive (vars st ! v))"
  shows "sound_step st (setVar st v ((vars st ! v)\<lparr>watched := []\<rparr>))" (is "sound_step st ?st1")
  unfolding sound_step_def
proof (intro impI conjI allI)
  assume inv: "solver_inv st"
  then have vi: "var_inv v (vars st ! v)" using assms(1) by (simp add: solver_inv_def)
  have "var_inv v ((vars st ! v)\<lparr>watched := []\<rparr>)" using vi by (simp add: var_inv_def)
  then show "solver_inv ?st1" using inv by (rule solver_inv_setVar[rotated])
next
  assume inv: "solver_inv st"
  then have vi: "var_inv v (vars st ! v)" using assms(1) by (simp add: solver_inv_def)
  fix c assume "accounted st c"
  then show "accounted ?st1 c"
  proof (rule accounted_setVar[OF assms(1), rotated 2])
    fix d assume "d \<in> set (watched (vars st ! v))"
    then have l: "SATLiteral v (isPurePositive (vars st ! v)) \<in> set d"
      using vi by (simp add: var_inv_def)
    have "unit_subsumes (vars ?st1 ! v) (isPurePositive (vars st ! v))"
      using assms by (simp add: unit_subsumes_def)
    then have "subsumed ?st1 d" using l assms(1)
      unfolding subsumed_def
      by (intro bexI[of _ "SATLiteral v (isPurePositive (vars st ! v))"]) simp_all
    then show "accounted ?st1 d" by (rule subsumed_accounted)
  next
    fix q assume "unit_subsumes (vars st ! v) q"
    then show "unit_subsumes ((vars st ! v)\<lparr>watched := []\<rparr>) q" by (simp add: unit_subsumes_def)
  qed
qed

lemma change_sound: "change st st1 \<Longrightarrow> sound_step st st1"
proof (induction rule: change.induct)
  case (watch v st pol cl)
  then show ?case by (rule sound_watch)
next
  case (delete v st p)
  then show ?case by (rule sound_delete)
next
  case (unsee v st)
  then show ?case
    by (intro sound_keep) (simp_all add: unit_subsumes_def var_inv_def)
next
  case (requeue v st)
  then show ?case by (intro sound_requeue)
next
  case (drop_subsumed v st)
  then show ?case by (intro sound_drop_subsumed)
next
  case (set_unit v st pol)
  then show ?case
    by (intro sound_keep) (simp_all add: unit_subsumes_def var_inv_def)
next
  case (see v st pol)
  then show ?case
    by (intro sound_keep) (simp_all add: unit_subsumes_def var_inv_def)
next
  case (forward st cl)
  show ?case by (auto simp: sound_step_def solver_inv_def accounted_def parked_def subsumed_def)
qed

lemma changes_sound: "change\<^sup>*\<^sup>* st st1 \<Longrightarrow> sound_step st st1"
  by (induction rule: rtranclp_induct) (auto intro: sound_step_refl sound_step_trans change_sound)

lemma processUnit_accounts:
  assumes "processUnit cl st = Inr st1" and "length cl = 1"
  shows "accounted st1 cl"
proof -
  obtain lit where cl: "cl = [lit]" using assms(2) by (cases cl) auto
  have v: "var lit < length (vars st)"
    using assms(1) cl by (auto simp: processUnit_def split: if_splits)
  show ?thesis
  proof (cases "unit (vars st ! var lit)")
    case (Some u)
    then obtain ulit us where u: "u = ulit # us"
      using assms(1) cl v by (cases u) (auto simp: processUnit_def)
    show ?thesis
    proof (cases "polarity ulit = polarity lit")
      case True
      then have "st1 = st" using assms(1) cl v Some u by (simp add: processUnit_def)
      moreover have "subsumed st cl"
        using v Some u True cl by (auto simp: subsumed_def unit_subsumes_def)
      ultimately show ?thesis by (simp add: accounted_def)
    next
      case False
      then have "st1 = st\<lparr>toBeAdded := cl # toBeAdded st\<rparr>"
        using assms(1) cl v Some u by (simp add: processUnit_def)
      then show ?thesis by (simp add: accounted_def)
    qed
  next
    case None
    let ?st1 = "setVar st (var lit) ((vars st ! var lit)\<lparr>unit := Some cl\<rparr>)"
    have h: "\<not> hasAssumption (vars ?st1 ! var lit)"
      using assms(1) v None unfolding processUnit_def cl
      by (simp add: Let_def split: if_splits)
    have "cl \<in> set (toBeAdded st1)"
    proof (cases "processUnit_pure (var lit) (polarity lit) ?st1")
      case (Inl e)
      then have False using assms(1) v None h unfolding processUnit_def cl
        by (simp add: Let_def)
      then show ?thesis ..
    next
      case (Inr st2)
      then show ?thesis using assms(1) v None h unfolding processUnit_def cl
        by (auto simp: Let_def)
    qed
    then show ?thesis by (simp add: accounted_def)
  qed
qed

lemma tryWatchOrSubsume_accounts:
  assumes "tryWatchOrSubsume cl fv st = Inr (True, st1)"
  shows "accounted st1 cl"
  using tryWatchOrSubsume_moved[OF assms] by (auto simp: accounted_def parked_def)

lemma sweep_literals_fixed:
  "sweep_literals cl lits toUnpure st = Inr (True, toUnpure1, st1) \<Longrightarrow> accounted st1 cl"
proof (induction lits arbitrary: toUnpure st)
  case Nil
  then show ?case by simp
next
  case (Cons lit lits)
  note c = sweep_literals_Cons[OF Cons.prems]
  show ?case
  proof (cases "isPure (vars st ! var lit)")
    case False
    then have "sweep_literals cl lits toUnpure st = Inr (True, toUnpure1, st1)"
      using c by simp
    then show ?thesis by (rule Cons.IH)
  next
    case True
    then obtain swept st2 where
      r: "if swept then \<exists>st3. tryWatchOrSubsume cl 0 st2 = Inr (True, st3) \<and>
                 (True, toUnpure1, st1) = (True, toUnpure, st3)
              else sweep_literals cl lits (var lit # toUnpure) st2 = Inr (True, toUnpure1, st1)"
      using c by auto
    show ?thesis
    proof (cases swept)
      case s: True
      then have "tryWatchOrSubsume cl 0 st2 = Inr (True, st1)" using r by auto
      then show ?thesis by (rule tryWatchOrSubsume_accounts)
    next
      case False
      then have "sweep_literals cl lits (var lit # toUnpure) st2 = Inr (True, toUnpure1, st1)"
        using r by simp
      then show ?thesis by (rule Cons.IH)
    qed
  qed
qed

lemma processClause_accounts:
  assumes "processClause cl st = Inr st1" and "solver_inv st"
  shows "accounted st1 cl"
proof (cases "length cl = 1")
  case True
  then show ?thesis using assms(1) processUnit_accounts by (simp add: processClause_def)
next
  case False
  then obtain ok st2 where t: "tryWatchOrSubsume cl 0 st = Inr (ok, st2)"
    using assms(1) by (auto simp: processClause_def split: sum.splits)
  have c2: "change\<^sup>*\<^sup>* st st2" using t by (rule tryWatchOrSubsume_changes)
  show ?thesis
  proof (cases ok)
    case True
    then have "st1 = st2" using assms(1) False t by (simp add: processClause_def)
    then show ?thesis using t True tryWatchOrSubsume_accounts by simp
  next
    case nd: False
    then obtain fixed toUnpure st3 where s: "sweep_literals cl cl [] st2 = Inr (fixed, toUnpure, st3)"
      using assms(1) False t by (auto simp: processClause_def split: sum.splits)
    have c3: "change\<^sup>*\<^sup>* st2 st3" using s by (rule sweep_literals_changes)
    show ?thesis
    proof (cases fixed)
      case True
      then have "st1 = st3" using assms(1) False t nd s by (simp add: processClause_def)
      then show ?thesis using s True sweep_literals_fixed by simp
    next
      case nf: False
      let ?st4 = "st3\<lparr>toBeAdded := cl # toBeAdded st3\<rparr>"
      have m: "makeVarsNonPure toUnpure ?st4 = Inr st1"
        using assms(1) False t nd s nf by (simp add: processClause_def)
      have "change st3 ?st4" by (rule change.forward)
      then have "change\<^sup>*\<^sup>* st ?st4" using c2 c3 by simp
      then have "solver_inv ?st4" using changes_sound assms(2) by (auto simp: sound_step_def)
      moreover have "accounted ?st4 cl" by (simp add: accounted_def)
      ultimately show ?thesis
        using changes_sound[OF makeVarsNonPure_changes[OF m]] by (simp add: sound_step_def)
    qed
  qed
qed

lemma processUnprocessed_sound: "processUnprocessed st = Inr st1 \<Longrightarrow> sound_step st st1"
proof (erule processUnprocessed_rule)
  fix s cl rest s2 s3
  assume u: "unprocessed s = cl # rest"
    and p: "processClause cl (s\<lparr>unprocessed := rest\<rparr>) = Inr s2"
    and ih: "sound_step s2 s3"
  let ?s1 = "s\<lparr>unprocessed := rest\<rparr>"
  have step: "sound_step ?s1 s2" using p by (intro changes_sound processClause_changes)
  show "sound_step s s3"
    unfolding sound_step_def
  proof (intro impI conjI allI)
    assume inv: "solver_inv s"
    then have inv1: "solver_inv ?s1" by (simp add: solver_inv_def)
    then have inv2: "solver_inv s2" using step by (simp add: sound_step_def)
    then show "solver_inv s3" using ih by (simp add: sound_step_def)
    fix c assume "accounted s c"
    then have "c = cl \<or> accounted ?s1 c"
      using u by (auto simp: accounted_def parked_def subsumed_def)
    moreover have "accounted s2 cl" using p inv1 by (rule processClause_accounts)
    moreover have "accounted ?s1 c \<Longrightarrow> accounted s2 c"
      using step inv1 by (simp add: sound_step_def)
    ultimately have "accounted s2 c" by blast
    then show "accounted s3 c" using ih inv2 by (simp add: sound_step_def)
  qed
qed (rule sound_step_refl)

lemma change_inner: "change st st1 \<Longrightarrow> inner st1 = inner st \<and> assumptions st1 = assumptions st"
  by (induction rule: change.induct) simp_all

lemma changes_inner: "change\<^sup>*\<^sup>* st st1 \<Longrightarrow> inner st1 = inner st \<and> assumptions st1 = assumptions st"
  by (induction rule: rtranclp_induct) (simp_all add: change_inner)

lemma processUnprocessed_inner:
  "processUnprocessed st = Inr st1 \<Longrightarrow> inner st1 = inner st \<and> assumptions st1 = assumptions st"
proof (erule processUnprocessed_rule)
  fix s cl rest s2 s3
  assume "processClause cl (s\<lparr>unprocessed := rest\<rparr>) = Inr s2"
    and ih: "inner s3 = inner s2 \<and> assumptions s3 = assumptions s2"
  then have "inner s2 = inner (s\<lparr>unprocessed := rest\<rparr>) \<and>
             assumptions s2 = assumptions (s\<lparr>unprocessed := rest\<rparr>)"
    by (intro changes_inner processClause_changes)
  then show "inner s3 = inner s \<and> assumptions s3 = assumptions s" using ih by simp
qed simp

lemma subsumed_by_unit:
  assumes "subsumed st c" and "solver_inv st"
  shows "\<exists>l\<in>set c. \<exists>v<length (vars st). unit (vars st ! v) = Some [l]"
proof -
  from assms(1) obtain l ulit us where l: "l \<in> set c" "var l < length (vars st)"
    "unit (vars st ! var l) = Some (ulit # us)" "polarity ulit = polarity l"
    by (auto simp: subsumed_def unit_subsumes_def)
  have "var_inv (var l) (vars st ! var l)" using assms(2) l(2) by (simp add: solver_inv_def)
  then have "\<exists>pol. ulit # us = [SATLiteral (var l) pol]"
    using l(3) unfolding var_inv_def by blast
  then obtain pol where "ulit # us = [SATLiteral (var l) pol]" ..
  then have "ulit # us = [l]" using l(4) by (cases l) auto
  then show ?thesis using l by auto
qed

text \<open>
  Claim C10. \<open>addClauses\<close> asserts that no assumption is outstanding and that both
  queues are empty: otherwise it ends in an assertion violation. When it returns, both
  queues are empty again, the inner solver has received one batch of forwarded clauses,
  and, the entries satisfying their invariant, every clause of the call that was not
  forwarded is subsumed by the unit stored for one of its literals or parked in the
  watched list of some variable. (\<open>addClauses\<close> is total: the queue always terminates.)
\<close>

theorem addClauses_queues:
  "(assumptions st \<noteq> [] \<or> unprocessed st \<noteq> [] \<or> toBeAdded st \<noteq> [] \<longrightarrow>
      addClauses cit onlyPropagate st = Inl AssertionViolation) \<and>
   (addClauses cit onlyPropagate st = Inr st1 \<longrightarrow>
      assumptions st = [] \<and> unprocessed st = [] \<and> toBeAdded st = [] \<and>
      unprocessed st1 = [] \<and> toBeAdded st1 = [] \<and>
      (\<exists>forwarded. inner st1 = inner st @ [InnerAddClauses forwarded onlyPropagate] \<and>
         (solver_inv st \<longrightarrow> solver_inv st1 \<and>
            (\<forall>c\<in>set cit. c \<in> set forwarded \<or>
               (\<exists>l\<in>set c. \<exists>v<length (vars st1). unit (vars st1 ! v) = Some [l]) \<or>
               parked st1 c))))"
proof (intro conjI impI)
  assume "assumptions st \<noteq> [] \<or> unprocessed st \<noteq> [] \<or> toBeAdded st \<noteq> []"
  then show "addClauses cit onlyPropagate st = Inl AssertionViolation"
    by (auto simp: addClauses_def)
next
  assume a: "addClauses cit onlyPropagate st = Inr st1"
  then have pre: "assumptions st = []" "unprocessed st = []" "toBeAdded st = []"
    by (auto simp: addClauses_def split: if_splits)
  let ?s = "st\<lparr>unprocessed := loadFromIterator (unprocessed st) cit\<rparr>"
  from a pre obtain s1 where p: "processUnprocessed ?s = Inr s1"
    and r: "st1 = flushClausesToInner onlyPropagate s1"
    by (auto simp: addClauses_def split: sum.splits)
  have e: "unprocessed s1 = []" using p by (rule processUnprocessed_empties)
  have i: "inner s1 = inner st" using processUnprocessed_inner[OF p] by simp
  have snd: "sound_step ?s s1" using p by (rule processUnprocessed_sound)
  show "assumptions st = []" "unprocessed st = []" "toBeAdded st = []" by (rule pre)+
  show "unprocessed st1 = []" using e r by (simp add: flushClausesToInner_def)
  show "toBeAdded st1 = []" using r by (simp add: flushClausesToInner_def)
  have "inner st1 = inner st @ [InnerAddClauses (toBeAdded s1) onlyPropagate]"
    using r i by (simp add: flushClausesToInner_def)
  moreover have "solver_inv st1 \<and>
            (\<forall>c\<in>set cit. c \<in> set (toBeAdded s1) \<or>
               (\<exists>l\<in>set c. \<exists>v<length (vars st1). unit (vars st1 ! v) = Some [l]) \<or>
               parked st1 c)" if inv: "solver_inv st"
  proof
    have "solver_inv ?s" using inv by (simp add: solver_inv_def)
    then have inv1: "solver_inv s1" and acc: "\<forall>c. accounted ?s c \<longrightarrow> accounted s1 c"
      using snd by (simp_all add: sound_step_def)
    have vs: "vars st1 = vars s1" using r by (simp add: flushClausesToInner_def)
    show "solver_inv st1" using inv1 vs by (simp add: solver_inv_def)
    show "\<forall>c\<in>set cit. c \<in> set (toBeAdded s1) \<or>
               (\<exists>l\<in>set c. \<exists>v<length (vars st1). unit (vars st1 ! v) = Some [l]) \<or>
               parked st1 c"
    proof
      fix c assume "c \<in> set cit"
      then have "accounted ?s c" by (simp add: accounted_def loadFromIterator_def)
      then have "accounted s1 c" using acc by simp
      then consider "c \<in> set (toBeAdded s1)" | "parked s1 c" | "subsumed s1 c"
        using e by (auto simp: accounted_def)
      then show "c \<in> set (toBeAdded s1) \<or>
               (\<exists>l\<in>set c. \<exists>v<length (vars st1). unit (vars st1 ! v) = Some [l]) \<or>
               parked st1 c"
      proof cases
        case 1
        then show ?thesis by simp
      next
        case 2
        then show ?thesis using vs by (simp add: parked_def)
      next
        case 3
        then show ?thesis using subsumed_by_unit[OF 3 inv1] vs by simp
      qed
    qed
  qed
  ultimately show "\<exists>forwarded. inner st1 = inner st @ [InnerAddClauses forwarded onlyPropagate] \<and>
         (solver_inv st \<longrightarrow> solver_inv st1 \<and>
            (\<forall>c\<in>set cit. c \<in> set forwarded \<or>
               (\<exists>l\<in>set c. \<exists>v<length (vars st1). unit (vars st1 ! v) = Some [l]) \<or>
               parked st1 c))"
    by blast
qed

lemma three_vars_inv: "solver_inv three_vars"
  by (auto simp: solver_inv_def three_vars_def var_inv_def newVarInfo_def nth_Cons split: nat.splits)

lemma three_vars_run:
  "addClauses [[SATLiteral 1 False, SATLiteral 2 True]] False three_vars =
     Inr \<lparr>inner = [InnerEnsureVarCnt 3, InnerAddClauses [] False], unprocessed = [], toBeAdded = [],
          vars = [newVarInfo False False False,
                  pure_var False [[SATLiteral 1 False, SATLiteral 2 True]],
                  newVarInfo False False False],
          assumptions = []\<rparr>"
  by (simp add: addClauses_def three_vars_def loadFromIterator_def processUnprocessed_Cons
        processUnprocessed_Nil processClause_def tryWatchOrSubsume_def newVarInfo_def Let_def
        setVar_def pure_var_def flushClausesToInner_def)

theorem addClauses_queues_witness:
  "addClauses [[SATLiteral 1 False, SATLiteral 2 True]] False three_vars =
     Inr \<lparr>inner = [InnerEnsureVarCnt 3, InnerAddClauses [] False], unprocessed = [], toBeAdded = [],
          vars = [newVarInfo False False False,
                  pure_var False [[SATLiteral 1 False, SATLiteral 2 True]],
                  newVarInfo False False False],
          assumptions = []\<rparr> \<and>
   assumptions three_vars = [] \<and> unprocessed three_vars = [] \<and> toBeAdded three_vars = [] \<and>
   [SATLiteral 1 False, SATLiteral 2 True] \<in> set (watched (pure_var False [[SATLiteral 1 False, SATLiteral 2 True]])) \<and>
   addClauses [] False (three_vars\<lparr>toBeAdded := [[]]\<rparr>) = Inl AssertionViolation"
proof -
  have n: "assumptions (three_vars\<lparr>toBeAdded := [[]]\<rparr>) \<noteq> [] \<or>
           unprocessed (three_vars\<lparr>toBeAdded := [[]]\<rparr>) \<noteq> [] \<or>
           toBeAdded (three_vars\<lparr>toBeAdded := [[]]\<rparr>) \<noteq> []"
    by simp
  have a: "addClauses [] False (three_vars\<lparr>toBeAdded := [[]]\<rparr>) = Inl AssertionViolation"
    using addClauses_queues[THEN conjunct1, rule_format, OF n] .
  have b: "assumptions three_vars = [] \<and> unprocessed three_vars = [] \<and> toBeAdded three_vars = []"
    using addClauses_queues[THEN conjunct2, rule_format, OF three_vars_run] by blast
  have c: "[SATLiteral 1 False, SATLiteral 2 True]
             \<in> set (watched (pure_var False [[SATLiteral 1 False, SATLiteral 2 True]]))"
    by (simp add: pure_var_def)
  show ?thesis using three_vars_run a b c by (intro conjI) blast+
qed

section \<open>AIG definition introducer (AIGInliner.cpp)\<close>

subsection \<open>The graph\<close>

text \<open>Modelled from the spec: the and-inverter graph itself (AIG.hpp) is not among the sources.
  The introducer only uses a reference \<open>AIGRef\<close> (a node and a polarity) through \<open>polarity()\<close>,
  \<open>neg()\<close>, \<open>getPositive()\<close>, \<open>isPropConst()\<close>, \<open>isAtom()\<close>, \<open>isQuantifier()\<close>, \<open>parentCnt()\<close>
  and \<open>parent(pi)\<close>. A node is one of the four kinds of the specification (propositional constant,
  atom, conjunction, quantifier) and carries the references to the nodes it is built from, which
  the source calls its parents.\<close>

datatype AIGKind = PropConst | Atom | Conjunction | Quantifier

datatype AIGRef = AIGRef (nodeOf: nat) (pol: bool)

record AIGNode =
  kind :: AIGKind
  parents :: "AIGRef list"

type_synonym AIG = "nat \<Rightarrow> AIGNode"

definition neg :: "AIGRef \<Rightarrow> AIGRef" where
  "neg a = AIGRef (nodeOf a) (\<not> pol a)"

definition getPositive :: "AIGRef \<Rightarrow> AIGRef" where
  "getPositive a = AIGRef (nodeOf a) True"

definition isPropConst :: "AIG \<Rightarrow> AIGRef \<Rightarrow> bool" where
  "isPropConst G a = (kind (G (nodeOf a)) = PropConst)"

definition isAtom :: "AIG \<Rightarrow> AIGRef \<Rightarrow> bool" where
  "isAtom G a = (kind (G (nodeOf a)) = Atom)"

definition isQuantifier :: "AIG \<Rightarrow> AIGRef \<Rightarrow> bool" where
  "isQuantifier G a = (kind (G (nodeOf a)) = Quantifier)"

subsection \<open>State of the introducer\<close>

text \<open>\<open>NodeInfo\<close> as used by both passes. The two-element arrays \<open>_hasQuant\<close>, \<open>_inQuant\<close> and
  \<open>_inPol\<close> are indexed by a boolean (\<open>False\<close> is index 0); the counters are \<open>unsigned\<close>.\<close>

record NodeInfo =
  directRefCnt :: u32
  hasName :: bool
  name :: AIGRef
  hasQuant :: "bool \<Rightarrow> bool"
  inQuant :: "bool \<Rightarrow> bool"
  inPol :: "bool \<Rightarrow> bool"
  formRefCnt :: u32

text \<open>A definition unit \<open>P(x) <=> rhs\<close> is kept as the pair of the name and the defined node.
  \<open>_refAIGs\<close> and \<open>_refAIGInfos\<close> are indexed from the bottom of the stack, as \<open>operator[]\<close> does;
  \<open>toplevelAIGs\<close> lists the first components of \<open>_toplevelAIGs\<close> in the order of its iterator and
  \<open>newDefs\<close> has the last pushed unit first. \<open>freshPredicates\<close> counts the calls of
  \<open>addFreshPredicate\<close>.\<close>

type_synonym DefUnit = "AIGRef \<times> AIGRef"

record introducer =
  namingRefCntThreshold :: u32
  defs :: "AIGRef \<rightharpoonup> AIGRef"
  defUnits :: "AIGRef \<rightharpoonup> DefUnit"
  toplevelAIGs :: "AIGRef list"
  refAIGs :: "AIGRef list"
  aigIndexes :: "AIGRef \<rightharpoonup> nat"
  refAIGInfos :: "NodeInfo list"
  newDefs :: "DefUnit list"
  freshPredicates :: nat

text \<open>The constructor: \<open>_namingRefCntThreshold = 4\<close>, every container empty.\<close>

definition AIGDefinitionIntroducer :: introducer where
  "AIGDefinitionIntroducer =
     \<lparr>namingRefCntThreshold = 4, defs = Map.empty, defUnits = Map.empty, toplevelAIGs = [],
      refAIGs = [], aigIndexes = Map.empty, refAIGInfos = [], newDefs = [], freshPredicates = 0\<rparr>"

text \<open>An assignment through the reference \<open>NodeInfo& ni = _refAIGInfos[i]\<close>.\<close>

definition setInfo :: "nat \<Rightarrow> (NodeInfo \<Rightarrow> NodeInfo) \<Rightarrow> introducer \<Rightarrow> introducer" where
  "setInfo i f s = s\<lparr>refAIGInfos := (refAIGInfos s)[i := f (refAIGInfos s ! i)]\<rparr>"

subsection \<open>The second pass\<close>

text \<open>\<open>shouldIntroduceName\<close>, test by test.\<close>

definition shouldIntroduceName :: "AIG \<Rightarrow> introducer \<Rightarrow> nat \<Rightarrow> bool" where
  "shouldIntroduceName G s aigStackIdx =
     (let a = refAIGs s ! aigStackIdx in
      if isPropConst G a \<or> isAtom G a then False
      else if namingRefCntThreshold s = 0 \<or>
              formRefCnt (refAIGInfos s ! aigStackIdx) < namingRefCntThreshold s then False
      else if defs s a \<noteq> None then False
      else True)"

text \<open>\<open>introduceName\<close>. The two \<open>ASS\<close> and the two \<open>ALWAYS\<close> are aborts; \<open>nameAig k\<close> is the
  reference that \<open>_fsh.apply\<close> returns for the literal of the \<open>k\<close>-th fresh predicate made by
  \<open>getNameLiteral\<close>. \<open>DHMap::insert\<close> fails on a key that is present.\<close>

definition introduceName :: "(nat \<Rightarrow> AIGRef) \<Rightarrow> nat \<Rightarrow> introducer \<Rightarrow> error + introducer" where
  "introduceName nameAig aigStackIdx s =
     (let a = refAIGs s ! aigStackIdx in
      if hasName (refAIGInfos s ! aigStackIdx) then Inl AssertionViolation
      else if defs s (getPositive a) \<noteq> None then Inl AssertionViolation
      else
        let nm = nameAig (freshPredicates s);
            s1 = setInfo aigStackIdx (\<lambda>ni. ni\<lparr>formRefCnt := 1, hasName := True, name := nm\<rparr>)
                   (s\<lparr>freshPredicates := Suc (freshPredicates s)\<rparr>);
            k = (if pol a then a else neg a);
            v = (if pol a then nm else neg nm)
        in if defs s1 k \<noteq> None then Inl AssertionViolation
           else if defUnits s1 a \<noteq> None then Inl AssertionViolation
           else Inr (s1\<lparr>defs := (defs s1)(k \<mapsto> v),
                        defUnits := (defUnits s1)(a \<mapsto> (nm, a)),
                        newDefs := (nm, a) # newDefs s1\<rparr>))"

text \<open>The first loop of \<open>doSecondRefAIGPass\<close>: every top-level occurrence counts once.
  \<open>_aigIndexes.get\<close> asserts that the key is present.\<close>

fun count_toplevel :: "AIGRef list \<Rightarrow> introducer \<Rightarrow> error + introducer" where
  "count_toplevel [] s = Inr s"
| "count_toplevel (a # rest) s =
     (let aPos = (if \<not> pol a then neg a else a) in
      case aigIndexes s aPos of
        None \<Rightarrow> Inl AssertionViolation
      | Some stackIdx \<Rightarrow>
          if \<not> stackIdx < length (refAIGInfos s) then Inl AssertionViolation
          else count_toplevel rest
                 (setInfo stackIdx
                    (\<lambda>ni. ni\<lparr>formRefCnt := formRefCnt ni + 1, inPol := (inPol ni)(pol a := True)\<rparr>) s))"

text \<open>The body of the loop over the parents of node \<open>i\<close>. Both \<open>ni\<close> and \<open>pni\<close> are references into
  \<open>_refAIGInfos\<close>, so each assignment reads the array as the previous one left it. With
  \<open>ng = !par.polarity()\<close>, index \<open>0^neg\<close> is \<open>ng\<close> and indices \<open>1^neg\<close> and \<open>!neg\<close> are \<open>\<not> ng\<close>.\<close>

definition propagate_parent :: "AIG \<Rightarrow> nat \<Rightarrow> AIGRef \<Rightarrow> introducer \<Rightarrow> error + introducer" where
  "propagate_parent G i par s =
     (let r = refAIGs s ! i;
          ng = (\<not> pol par);
          posPar = (if ng then neg par else par) in
      case aigIndexes s posPar of
        None \<Rightarrow> Inl AssertionViolation
      | Some parStackIdx \<Rightarrow>
          if \<not> parStackIdx < length (refAIGInfos s) then Inl AssertionViolation
          else
            let s1 = (if isQuantifier G r
                      then setInfo parStackIdx (\<lambda>pni. pni\<lparr>inQuant := (inQuant pni)((\<not> ng) := True)\<rparr>) s
                      else s);
                s2 = setInfo parStackIdx (\<lambda>pni. pni\<lparr>inQuant := (inQuant pni)
                        (ng := inQuant pni ng \<or> inQuant (refAIGInfos s1 ! i) False)\<rparr>) s1;
                s3 = setInfo parStackIdx (\<lambda>pni. pni\<lparr>inQuant := (inQuant pni)
                        ((\<not> ng) := inQuant pni (\<not> ng) \<or> inQuant (refAIGInfos s2 ! i) True)\<rparr>) s2;
                s4 = setInfo parStackIdx (\<lambda>pni. pni\<lparr>inPol := (inPol pni)
                        (ng := inPol pni ng \<or> inPol (refAIGInfos s3 ! i) False)\<rparr>) s3;
                s5 = setInfo parStackIdx (\<lambda>pni. pni\<lparr>inPol := (inPol pni)
                        ((\<not> ng) := inPol pni (\<not> ng) \<or> inPol (refAIGInfos s4 ! i) True)\<rparr>) s4
            in Inr (setInfo parStackIdx
                      (\<lambda>pni. pni\<lparr>formRefCnt := formRefCnt pni + formRefCnt (refAIGInfos s5 ! i)\<rparr>) s5))"

fun propagate :: "AIG \<Rightarrow> nat \<Rightarrow> AIGRef list \<Rightarrow> introducer \<Rightarrow> error + introducer" where
  "propagate G i [] s = Inr s"
| "propagate G i (par # rest) s =
     (case propagate_parent G i par s of
        Inl e \<Rightarrow> Inl e
      | Inr s1 \<Rightarrow> propagate G i rest s1)"

text \<open>The first half of the body of the reverse loop: a node that has a name counts once, and
  a name is introduced when \<open>shouldIntroduceName\<close> says so.\<close>

definition name_node :: "AIG \<Rightarrow> (nat \<Rightarrow> AIGRef) \<Rightarrow> nat \<Rightarrow> introducer \<Rightarrow> error + introducer" where
  "name_node G nameAig i s =
     (let s1 = (if hasName (refAIGInfos s ! i) then setInfo i (\<lambda>ni. ni\<lparr>formRefCnt := 1\<rparr>) s else s)
      in if shouldIntroduceName G s1 i then introduceName nameAig i s1 else Inr s1)"

text \<open>One iteration of the reverse loop, for index \<open>i\<close> (after \<open>i--\<close>).\<close>

definition process_node :: "AIG \<Rightarrow> (nat \<Rightarrow> AIGRef) \<Rightarrow> nat \<Rightarrow> introducer \<Rightarrow> error + introducer" where
  "process_node G nameAig i s =
     (if \<not> i < length (refAIGInfos s) then Inl AssertionViolation
      else case name_node G nameAig i s of
             Inl e \<Rightarrow> Inl e
           | Inr s1 \<Rightarrow> propagate G i (parents (G (nodeOf (refAIGs s ! i)))) s1)"

text \<open>\<open>for(size_t i=aigCnt; i>0;) { i--; ... }\<close>\<close>

fun reverse_loop :: "AIG \<Rightarrow> (nat \<Rightarrow> AIGRef) \<Rightarrow> nat \<Rightarrow> introducer \<Rightarrow> error + introducer" where
  "reverse_loop G nameAig 0 s = Inr s"
| "reverse_loop G nameAig (Suc i) s =
     (case process_node G nameAig i s of
        Inl e \<Rightarrow> Inl e
      | Inr s1 \<Rightarrow> reverse_loop G nameAig i s1)"

definition doSecondRefAIGPass :: "AIG \<Rightarrow> (nat \<Rightarrow> AIGRef) \<Rightarrow> introducer \<Rightarrow> error + introducer" where
  "doSecondRefAIGPass G nameAig s =
     (case count_toplevel (toplevelAIGs s) s of
        Inl e \<Rightarrow> Inl e
      | Inr s1 \<Rightarrow> reverse_loop G nameAig (length (refAIGs s1)) s1)"

subsection \<open>The state in which a node is reached\<close>

text \<open>The same loop, left as soon as the loop variable is \<open>stop\<close>: started like the pass, it gives
  the state in which the iteration for index \<open>stop - 1\<close> begins, and so the reference count that
  the node at that index has accumulated from the top-level formulas and from the nodes above it.\<close>

fun reverse_loop_until :: "AIG \<Rightarrow> (nat \<Rightarrow> AIGRef) \<Rightarrow> nat \<Rightarrow> nat \<Rightarrow> introducer \<Rightarrow> error + introducer" where
  "reverse_loop_until G nameAig stop 0 s = Inr s"
| "reverse_loop_until G nameAig stop (Suc i) s =
     (if Suc i = stop then Inr s
      else case process_node G nameAig i s of
             Inl e \<Rightarrow> Inl e
           | Inr s1 \<Rightarrow> reverse_loop_until G nameAig stop i s1)"

definition before_node :: "AIG \<Rightarrow> (nat \<Rightarrow> AIGRef) \<Rightarrow> nat \<Rightarrow> introducer \<Rightarrow> error + introducer" where
  "before_node G nameAig i s =
     (case count_toplevel (toplevelAIGs s) s of
        Inl e \<Rightarrow> Inl e
      | Inr s1 \<Rightarrow> reverse_loop_until G nameAig (Suc i) (length (refAIGs s1)) s1)"

text \<open>The conditions of the specification on the node at index \<open>i\<close>, read in the state in which
  the node is reached: it is neither a propositional constant nor an atom and its formula
  reference count has reached the threshold.\<close>

definition qualifies :: "AIG \<Rightarrow> introducer \<Rightarrow> nat \<Rightarrow> bool" where
  "qualifies G s i =
     (\<not> isPropConst G (refAIGs s ! i) \<and> \<not> isAtom G (refAIGs s ! i) \<and>
      namingRefCntThreshold s \<le> formRefCnt (refAIGInfos s ! i))"

definition alreadyNamed :: "introducer \<Rightarrow> nat \<Rightarrow> bool" where
  "alreadyNamed s i = (hasName (refAIGInfos s ! i) \<or> defs s (refAIGs s ! i) \<noteq> None)"

text \<open>What no step of the pass changes, and what it only extends.\<close>

definition keeps :: "nat \<Rightarrow> introducer \<Rightarrow> introducer \<Rightarrow> bool" where
  "keeps i s s1 =
     (refAIGs s1 = refAIGs s \<and> namingRefCntThreshold s1 = namingRefCntThreshold s \<and>
      aigIndexes s1 = aigIndexes s \<and> length (refAIGInfos s1) = length (refAIGInfos s) \<and>
      defs s \<subseteq>\<^sub>m defs s1 \<and>
      (hasName (refAIGInfos s ! i) \<longrightarrow>
         hasName (refAIGInfos s1 ! i) \<and> name (refAIGInfos s1 ! i) = name (refAIGInfos s ! i)))"

lemma keeps_refl: "keeps i s s"
  by (simp add: keeps_def)

lemma keeps_trans: "keeps i s s1 \<Longrightarrow> keeps i s1 s2 \<Longrightarrow> keeps i s s2"
  unfolding keeps_def using map_le_trans by (metis (no_types, lifting))

lemma setInfo_keeps:
  assumes "\<And>ni. hasName ni \<Longrightarrow> hasName (f ni) \<and> name (f ni) = name ni"
  shows "keeps i s (setInfo j f s)"
proof (cases "j = i \<and> i < length (refAIGInfos s)")
  case True
  then show ?thesis using assms by (simp add: keeps_def setInfo_def)
next
  case False
  then have "(refAIGInfos s)[j := f (refAIGInfos s ! j)] ! i = refAIGInfos s ! i"
    by (cases "j = i") (simp_all add: list_update_beyond)
  then show ?thesis by (simp add: keeps_def setInfo_def)
qed

lemma count_toplevel_keeps:
  "count_toplevel as s = Inr s1 \<Longrightarrow> keeps i s s1"
proof (induction as arbitrary: s)
  case Nil
  then show ?case by (simp add: keeps_refl)
next
  case (Cons a as)
  let ?k = "if \<not> pol a then neg a else a"
  from Cons.prems obtain idx where idx: "aigIndexes s ?k = Some idx"
    by (cases "aigIndexes s ?k") (simp_all add: Let_def)
  let ?s = "setInfo idx (\<lambda>ni. ni\<lparr>formRefCnt := formRefCnt ni + 1, inPol := (inPol ni)(pol a := True)\<rparr>) s"
  from Cons.prems idx have "count_toplevel as ?s = Inr s1"
    by (simp add: Let_def split: if_splits)
  then have "keeps i ?s s1" by (rule Cons.IH)
  moreover have "keeps i s ?s" by (rule setInfo_keeps) simp
  ultimately show ?case using keeps_trans by blast
qed

lemma propagate_parent_keeps:
  assumes "propagate_parent G j par s = Inr s1"
  shows "keeps i s s1"
proof -
  let ?ng = "\<not> pol par"
  let ?k = "if ?ng then neg par else par"
  from assms obtain p where p: "aigIndexes s ?k = Some p"
    by (cases "aigIndexes s ?k") (simp_all add: propagate_parent_def Let_def)
  define s1a where "s1a = (if isQuantifier G (refAIGs s ! j)
                      then setInfo p (\<lambda>pni. pni\<lparr>inQuant := (inQuant pni)((\<not> ?ng) := True)\<rparr>) s
                      else s)"
  define s2 where "s2 = setInfo p (\<lambda>pni. pni\<lparr>inQuant := (inQuant pni)
                        (?ng := inQuant pni ?ng \<or> inQuant (refAIGInfos s1a ! j) False)\<rparr>) s1a"
  define s3 where "s3 = setInfo p (\<lambda>pni. pni\<lparr>inQuant := (inQuant pni)
                        ((\<not> ?ng) := inQuant pni (\<not> ?ng) \<or> inQuant (refAIGInfos s2 ! j) True)\<rparr>) s2"
  define s4 where "s4 = setInfo p (\<lambda>pni. pni\<lparr>inPol := (inPol pni)
                        (?ng := inPol pni ?ng \<or> inPol (refAIGInfos s3 ! j) False)\<rparr>) s3"
  define s5 where "s5 = setInfo p (\<lambda>pni. pni\<lparr>inPol := (inPol pni)
                        ((\<not> ?ng) := inPol pni (\<not> ?ng) \<or> inPol (refAIGInfos s4 ! j) True)\<rparr>) s4"
  define s6 where "s6 = setInfo p
                      (\<lambda>pni. pni\<lparr>formRefCnt := formRefCnt pni + formRefCnt (refAIGInfos s5 ! j)\<rparr>) s5"
  have "s1 = s6"
    using assms p unfolding propagate_parent_def Let_def s6_def s5_def s4_def s3_def s2_def s1a_def
    by (simp split: if_splits)
  moreover have "keeps i s s1a" unfolding s1a_def
    by (cases "isQuantifier G (refAIGs s ! j)") (simp_all add: keeps_refl setInfo_keeps)
  moreover have "keeps i s1a s2" unfolding s2_def by (rule setInfo_keeps) simp
  moreover have "keeps i s2 s3" unfolding s3_def by (rule setInfo_keeps) simp
  moreover have "keeps i s3 s4" unfolding s4_def by (rule setInfo_keeps) simp
  moreover have "keeps i s4 s5" unfolding s5_def by (rule setInfo_keeps) simp
  moreover have "keeps i s5 s6" unfolding s6_def by (rule setInfo_keeps) simp
  ultimately show ?thesis using keeps_trans by blast
qed

lemma propagate_keeps:
  "propagate G j pars s = Inr s1 \<Longrightarrow> keeps i s s1"
proof (induction pars arbitrary: s)
  case Nil
  then show ?case by (simp add: keeps_refl)
next
  case (Cons par pars)
  from Cons.prems obtain s2 where s2: "propagate_parent G j par s = Inr s2"
      and rest: "propagate G j pars s2 = Inr s1"
    by (cases "propagate_parent G j par s") simp_all
  show ?case using propagate_parent_keeps[OF s2] Cons.IH[OF rest] keeps_trans by blast
qed

lemma introduceName_result:
  assumes "introduceName nameAig j s = Inr s1"
  shows "\<not> hasName (refAIGInfos s ! j) \<and> defs s (getPositive (refAIGs s ! j)) = None \<and>
         s1 = (setInfo j (\<lambda>ni. ni\<lparr>formRefCnt := 1, hasName := True, name := nameAig (freshPredicates s)\<rparr>)
                   (s\<lparr>freshPredicates := Suc (freshPredicates s)\<rparr>))
                \<lparr>defs := (defs s)((if pol (refAIGs s ! j) then refAIGs s ! j else neg (refAIGs s ! j)) \<mapsto>
                           (if pol (refAIGs s ! j) then nameAig (freshPredicates s)
                            else neg (nameAig (freshPredicates s)))),
                  defUnits := (defUnits s)(refAIGs s ! j \<mapsto> (nameAig (freshPredicates s), refAIGs s ! j)),
                  newDefs := (nameAig (freshPredicates s), refAIGs s ! j) # newDefs s\<rparr> \<and>
         defs s (if pol (refAIGs s ! j) then refAIGs s ! j else neg (refAIGs s ! j)) = None"
  using assms unfolding introduceName_def Let_def
  by (simp add: setInfo_def split: if_splits)

lemma introduceName_keeps:
  assumes "introduceName nameAig j s = Inr s1"
  shows "keeps i s s1"
proof -
  note r = introduceName_result[OF assms]
  let ?f = "\<lambda>ni. ni\<lparr>formRefCnt := 1, hasName := True, name := nameAig (freshPredicates s)\<rparr>"
  have nth: "hasName (refAIGInfos s ! i) \<Longrightarrow>
             (refAIGInfos s)[j := ?f (refAIGInfos s ! j)] ! i = refAIGInfos s ! i"
    using r by (cases "j = i") auto
  show ?thesis
    using r nth unfolding keeps_def
    by (auto simp: setInfo_def map_le_def)
qed

lemma name_node_keeps:
  assumes "name_node G nameAig j s = Inr s1"
  shows "keeps i s s1"
proof -
  define s0 where "s0 = (if hasName (refAIGInfos s ! j) then setInfo j (\<lambda>ni. ni\<lparr>formRefCnt := 1\<rparr>) s else s)"
  have a: "keeps i s s0" unfolding s0_def
    by (cases "hasName (refAIGInfos s ! j)") (simp_all add: keeps_refl setInfo_keeps)
  have "keeps i s0 s1"
  proof (cases "shouldIntroduceName G s0 j")
    case True
    then have "introduceName nameAig j s0 = Inr s1"
      using assms unfolding name_node_def Let_def s0_def by simp
    then show ?thesis by (rule introduceName_keeps)
  next
    case False
    then have "s1 = s0" using assms unfolding name_node_def Let_def s0_def by simp
    then show ?thesis by (simp add: keeps_refl)
  qed
  with a show ?thesis using keeps_trans by blast
qed

lemma process_node_cases:
  assumes "process_node G nameAig j s = Inr s1"
  obtains sn where "j < length (refAIGInfos s)" "name_node G nameAig j s = Inr sn"
    "propagate G j (parents (G (nodeOf (refAIGs s ! j)))) sn = Inr s1"
  using assms unfolding process_node_def
  by (cases "name_node G nameAig j s") (simp_all split: if_splits)

lemma process_node_keeps:
  assumes "process_node G nameAig j s = Inr s1"
  shows "keeps i s s1"
  using assms name_node_keeps propagate_keeps keeps_trans
  by (elim process_node_cases) blast

lemma reverse_loop_keeps:
  "reverse_loop G nameAig k s = Inr s1 \<Longrightarrow> keeps i s s1"
proof (induction k arbitrary: s)
  case 0
  then show ?case by (simp add: keeps_refl)
next
  case (Suc k)
  from Suc.prems obtain s2 where s2: "process_node G nameAig k s = Inr s2"
      and rest: "reverse_loop G nameAig k s2 = Inr s1"
    by (cases "process_node G nameAig k s") simp_all
  show ?case using process_node_keeps[OF s2] Suc.IH[OF rest] keeps_trans by blast
qed

lemma reverse_loop_until_keeps:
  "reverse_loop_until G nameAig stop k s = Inr s1 \<Longrightarrow> keeps i s s1"
proof (induction k arbitrary: s)
  case 0
  then show ?case by (simp add: keeps_refl)
next
  case (Suc k)
  show ?case
  proof (cases "Suc k = stop")
    case True
    have "s1 = s" using Suc.prems unfolding True[symmetric] by simp
    then show ?thesis by (simp add: keeps_refl)
  next
    case False
    with Suc.prems obtain s2 where s2: "process_node G nameAig k s = Inr s2"
      and rest: "reverse_loop_until G nameAig stop k s2 = Inr s1"
      by (cases "process_node G nameAig k s") simp_all
    show ?thesis using process_node_keeps[OF s2] Suc.IH[OF rest] keeps_trans by blast
  qed
qed

text \<open>The pass reaches every index, and goes on from there as the loop started at that index.\<close>

lemma reverse_loop_split:
  "i < n \<Longrightarrow> reverse_loop G nameAig n s = Inr s' \<Longrightarrow>
   \<exists>t. reverse_loop_until G nameAig (Suc i) n s = Inr t \<and> reverse_loop G nameAig (Suc i) t = Inr s'"
proof (induction n arbitrary: s)
  case 0
  then show ?case by simp
next
  case (Suc n)
  show ?case
  proof (cases "n = i")
    case True
    then show ?thesis using Suc.prems by simp
  next
    case False
    then have lt: "i < n" using Suc.prems by simp
    from Suc.prems obtain s2 where s2: "process_node G nameAig n s = Inr s2"
      and rest: "reverse_loop G nameAig n s2 = Inr s'"
      by (cases "process_node G nameAig n s") simp_all
    from Suc.IH[OF lt rest] show ?thesis using s2 False by simp
  qed
qed

text \<open>The naming step at one node.\<close>

lemma name_node_introduces:
  assumes run: "name_node G nameAig i t = Inr tn"
    and i: "i < length (refAIGInfos t)"
    and thr: "namingRefCntThreshold t \<noteq> 0"
    and pos: "pol (refAIGs t ! i)"
  shows "(newDefs tn \<noteq> newDefs t) = (qualifies G t i \<and> \<not> alreadyNamed t i)"
    and "newDefs tn \<noteq> newDefs t \<Longrightarrow>
           formRefCnt (refAIGInfos tn ! i) = 1 \<and> hasName (refAIGInfos tn ! i) \<and>
           name (refAIGInfos tn ! i) = nameAig (freshPredicates t) \<and>
           defs tn (refAIGs t ! i) = Some (nameAig (freshPredicates t)) \<and>
           newDefs tn = (nameAig (freshPredicates t), refAIGs t ! i) # newDefs t"
    and "qualifies G t i \<Longrightarrow> alreadyNamed tn i"
proof -
  define t0 where "t0 = (if hasName (refAIGInfos t ! i) then setInfo i (\<lambda>ni. ni\<lparr>formRefCnt := 1\<rparr>) t else t)"
  have t0: "refAIGs t0 = refAIGs t" "defs t0 = defs t" "newDefs t0 = newDefs t"
    "namingRefCntThreshold t0 = namingRefCntThreshold t" "freshPredicates t0 = freshPredicates t"
    "hasName (refAIGInfos t0 ! i) = hasName (refAIGInfos t ! i)"
    "length (refAIGInfos t0) = length (refAIGInfos t)"
    "\<not> hasName (refAIGInfos t ! i) \<Longrightarrow> t0 = t"
    using i by (simp_all add: t0_def setInfo_def)
  have all: "((newDefs tn \<noteq> newDefs t) = (qualifies G t i \<and> \<not> alreadyNamed t i)) \<and>
     (newDefs tn \<noteq> newDefs t \<longrightarrow>
           formRefCnt (refAIGInfos tn ! i) = 1 \<and> hasName (refAIGInfos tn ! i) \<and>
           name (refAIGInfos tn ! i) = nameAig (freshPredicates t) \<and>
           defs tn (refAIGs t ! i) = Some (nameAig (freshPredicates t)) \<and>
           newDefs tn = (nameAig (freshPredicates t), refAIGs t ! i) # newDefs t) \<and>
     (qualifies G t i \<longrightarrow> alreadyNamed tn i)"
  proof (cases "shouldIntroduceName G t0 i")
    case True
    then have intro: "introduceName nameAig i t0 = Inr tn"
      using run unfolding name_node_def Let_def t0_def by simp
    note r = introduceName_result[OF intro]
    from r t0 have nn: "\<not> hasName (refAIGInfos t ! i)" by simp
    then have eq: "t0 = t" by (rule t0(8))
    from True eq have sh: "shouldIntroduceName G t i" by simp
    then have q: "qualifies G t i" and d: "defs t (refAIGs t ! i) = None"
      unfolding shouldIntroduceName_def qualifies_def Let_def
      by (simp_all add: not_less split: if_splits)
    from r eq pos i have
      "newDefs tn = (nameAig (freshPredicates t), refAIGs t ! i) # newDefs t"
      "refAIGInfos tn ! i = (refAIGInfos t ! i)\<lparr>formRefCnt := 1, hasName := True,
          name := nameAig (freshPredicates t)\<rparr>"
      "defs tn (refAIGs t ! i) = Some (nameAig (freshPredicates t))"
      "refAIGs tn = refAIGs t"
      by (simp_all add: setInfo_def)
    then show ?thesis using q d nn by (simp add: alreadyNamed_def)
  next
    case False
    then have eq: "tn = t0" using run unfolding name_node_def Let_def t0_def by simp
    have "\<not> (qualifies G t i \<and> \<not> alreadyNamed t i)"
    proof
      assume a: "qualifies G t i \<and> \<not> alreadyNamed t i"
      then have "t0 = t" using t0(8) by (simp add: alreadyNamed_def)
      with a thr have "shouldIntroduceName G t0 i"
        unfolding shouldIntroduceName_def qualifies_def alreadyNamed_def Let_def
        by (simp add: not_less)
      with False show False by simp
    qed
    moreover have "newDefs tn = newDefs t" using eq t0 by simp
    moreover have "alreadyNamed tn i = alreadyNamed t i"
      using eq t0 by (simp add: alreadyNamed_def)
    ultimately show ?thesis by blast
  qed
  from all show "(newDefs tn \<noteq> newDefs t) = (qualifies G t i \<and> \<not> alreadyNamed t i)" by blast
  from all show "newDefs tn \<noteq> newDefs t \<Longrightarrow>
           formRefCnt (refAIGInfos tn ! i) = 1 \<and> hasName (refAIGInfos tn ! i) \<and>
           name (refAIGInfos tn ! i) = nameAig (freshPredicates t) \<and>
           defs tn (refAIGs t ! i) = Some (nameAig (freshPredicates t)) \<and>
           newDefs tn = (nameAig (freshPredicates t), refAIGs t ! i) # newDefs t" by blast
  from all show "qualifies G t i \<Longrightarrow> alreadyNamed tn i" by blast
qed

lemma keeps_alreadyNamed:
  assumes "keeps i s s1" and "alreadyNamed s i"
  shows "alreadyNamed s1 i"
proof (cases "hasName (refAIGInfos s ! i)")
  case True
  then show ?thesis using assms(1) by (simp add: keeps_def alreadyNamed_def)
next
  case False
  with assms(2) obtain n where n: "defs s (refAIGs s ! i) = Some n"
    by (auto simp: alreadyNamed_def)
  from assms(1) have le: "defs s \<subseteq>\<^sub>m defs s1" and r: "refAIGs s1 = refAIGs s"
    by (simp_all add: keeps_def)
  from n le have "defs s1 (refAIGs s ! i) = Some n"
    by (metis domI map_le_def)
  then show ?thesis using r by (simp add: alreadyNamed_def)
qed

subsection \<open>The accumulated reference count\<close>

text \<open>The index of the node a reference points to, as both loops of the pass look it up.\<close>

definition nodeIndex :: "introducer \<Rightarrow> AIGRef \<Rightarrow> nat option" where
  "nodeIndex s a = aigIndexes s (if \<not> pol a then neg a else a)"

text \<open>How often the node at index \<open>i\<close> is a parent of the node at index \<open>j\<close>, and how often
  it is a top-level formula.\<close>

definition occurrences :: "AIG \<Rightarrow> introducer \<Rightarrow> nat \<Rightarrow> nat \<Rightarrow> nat" where
  "occurrences G s j i =
     length (filter (\<lambda>par. nodeIndex s par = Some i) (parents (G (nodeOf (refAIGs s ! j)))))"

definition toplevelOccurrences :: "introducer \<Rightarrow> nat \<Rightarrow> nat" where
  "toplevelOccurrences s i = length (filter (\<lambda>a. nodeIndex s a = Some i) (toplevelAIGs s))"

text \<open>The count of the specification, read off the graph and the state \<open>s\<close> in which the pass
  starts: a node accumulates one reference per top-level occurrence and, per occurrence as a
  parent of a node above it, the effective count of that node. The effective count of a node is
  1 when the node has a name, from before the pass or introduced by it, and its accumulated count
  otherwise. The sums are those of the \<open>unsigned\<close> counter. \<open>introduces\<close> is the condition of the
  specification for a new name, \<open>effective\<close> the count that the parents of a node see.\<close>

function accumulated :: "AIG \<Rightarrow> introducer \<Rightarrow> nat \<Rightarrow> u32" where
  "accumulated G s i =
     formRefCnt (refAIGInfos s ! i) + of_nat (toplevelOccurrences s i) +
     sum_list (map (\<lambda>j. of_nat (occurrences G s j i) *
                 (if hasName (refAIGInfos s ! j) \<or>
                     (\<not> isPropConst G (refAIGs s ! j) \<and> \<not> isAtom G (refAIGs s ! j) \<and>
                      namingRefCntThreshold s \<noteq> 0 \<and>
                      namingRefCntThreshold s \<le> accumulated G s j \<and>
                      defs s (refAIGs s ! j) = None)
                  then 1 else accumulated G s j))
               [Suc i..<length (refAIGs s)])"
  by pat_completeness auto
termination
  by (relation "measure (\<lambda>(G, s, i). length (refAIGs s) - i)") auto

declare accumulated.simps [simp del]

definition introduces :: "AIG \<Rightarrow> introducer \<Rightarrow> nat \<Rightarrow> bool" where
  "introduces G s i =
     (\<not> hasName (refAIGInfos s ! i) \<and>
      \<not> isPropConst G (refAIGs s ! i) \<and> \<not> isAtom G (refAIGs s ! i) \<and>
      namingRefCntThreshold s \<noteq> 0 \<and> namingRefCntThreshold s \<le> accumulated G s i \<and>
      defs s (refAIGs s ! i) = None)"

definition effective :: "AIG \<Rightarrow> introducer \<Rightarrow> nat \<Rightarrow> u32" where
  "effective G s i =
     (if hasName (refAIGInfos s ! i) \<or> introduces G s i then 1 else accumulated G s i)"

text \<open>The stack as \<open>doFirstRefAIGPass\<close> has indexed it: every reference is positive
  (\<open>ASS(r.polarity())\<close>) and found at its own index, and the parents of a node are found at lower
  indices (they were in \<open>_aigIndexes\<close> when the node was reached).\<close>

definition wellIndexed :: "AIG \<Rightarrow> introducer \<Rightarrow> bool" where
  "wellIndexed G s =
     ((\<forall>j<length (refAIGs s). pol (refAIGs s ! j) \<and> aigIndexes s (refAIGs s ! j) = Some j) \<and>
      (\<forall>j<length (refAIGs s). \<forall>par\<in>set (parents (G (nodeOf (refAIGs s ! j)))).
          \<exists>p<j. nodeIndex s par = Some p))"

text \<open>The state of the pass when the loop variable is \<open>k\<close>: the nodes from \<open>k\<close> on have been
  processed and hold their effective count, the nodes below \<open>k\<close> have collected the references
  of the top level and of the processed nodes.\<close>

definition reached :: "AIG \<Rightarrow> introducer \<Rightarrow> nat \<Rightarrow> introducer \<Rightarrow> bool" where
  "reached G s k t =
     (refAIGs t = refAIGs s \<and> aigIndexes t = aigIndexes s \<and>
      namingRefCntThreshold t = namingRefCntThreshold s \<and>
      (\<forall>i<k. formRefCnt (refAIGInfos t ! i) =
                formRefCnt (refAIGInfos s ! i) + of_nat (toplevelOccurrences s i) +
                sum_list (map (\<lambda>j. of_nat (occurrences G s j i) * effective G s j)
                            [k..<length (refAIGs s)]) \<and>
             hasName (refAIGInfos t ! i) = hasName (refAIGInfos s ! i) \<and>
             defs t (refAIGs s ! i) = defs s (refAIGs s ! i)) \<and>
      (\<forall>j. k \<le> j \<and> j < length (refAIGs s) \<longrightarrow>
             formRefCnt (refAIGInfos t ! j) = effective G s j \<and>
             hasName (refAIGInfos t ! j) = (hasName (refAIGInfos s ! j) \<or> introduces G s j)) \<and>
      map snd (newDefs t) =
        map (\<lambda>j. refAIGs s ! j) (filter (introduces G s) [k..<length (refAIGs s)]) @
        map snd (newDefs s))"

lemma accumulated_effective:
  "accumulated G s i =
     formRefCnt (refAIGInfos s ! i) + of_nat (toplevelOccurrences s i) +
     sum_list (map (\<lambda>j. of_nat (occurrences G s j i) * effective G s j)
                 [Suc i..<length (refAIGs s)])"
  by (subst accumulated.simps) (auto simp: effective_def introduces_def intro!: arg_cong[where f = sum_list])

text \<open>The top-level loop.\<close>

lemma count_toplevel_counts:
  "count_toplevel as s = Inr s1 \<Longrightarrow>
   refAIGs s1 = refAIGs s \<and> aigIndexes s1 = aigIndexes s \<and>
   namingRefCntThreshold s1 = namingRefCntThreshold s \<and> defs s1 = defs s \<and>
   newDefs s1 = newDefs s \<and> toplevelAIGs s1 = toplevelAIGs s \<and>
   (\<forall>i. formRefCnt (refAIGInfos s1 ! i) =
          formRefCnt (refAIGInfos s ! i) + of_nat (length (filter (\<lambda>a. nodeIndex s a = Some i) as)) \<and>
        hasName (refAIGInfos s1 ! i) = hasName (refAIGInfos s ! i))"
proof (induction as arbitrary: s)
  case Nil
  then show ?case by simp
next
  case (Cons a as)
  from Cons.prems obtain idx where idx: "nodeIndex s a = Some idx"
    by (cases "nodeIndex s a") (simp_all add: Let_def nodeIndex_def)
  let ?f = "\<lambda>ni. ni\<lparr>formRefCnt := formRefCnt ni + 1, inPol := (inPol ni)(pol a := True)\<rparr>"
  let ?s = "setInfo idx ?f s"
  from Cons.prems idx have len: "idx < length (refAIGInfos s)"
    and rest: "count_toplevel as ?s = Inr s1"
    by (simp_all add: Let_def nodeIndex_def split: if_splits)
  have ni: "nodeIndex ?s = nodeIndex s" by (simp add: nodeIndex_def setInfo_def fun_eq_iff)
  have at: "\<And>i. formRefCnt (refAIGInfos ?s ! i) =
               formRefCnt (refAIGInfos s ! i) + (if i = idx then 1 else 0) \<and>
             hasName (refAIGInfos ?s ! i) = hasName (refAIGInfos s ! i)"
    using len by (simp add: setInfo_def nth_list_update)
  from Cons.IH[OF rest] show ?case
    using ni at idx by (auto simp: setInfo_def)
qed

text \<open>The loop over the parents.\<close>

lemma propagate_parent_counts:
  assumes run: "propagate_parent G j par t = Inr t1"
    and notj: "nodeIndex t par \<noteq> Some j"
  shows "refAIGs t1 = refAIGs t \<and> aigIndexes t1 = aigIndexes t \<and>
     namingRefCntThreshold t1 = namingRefCntThreshold t \<and> defs t1 = defs t \<and>
     newDefs t1 = newDefs t \<and>
     (\<forall>i. formRefCnt (refAIGInfos t1 ! i) =
            formRefCnt (refAIGInfos t ! i) +
            (if nodeIndex t par = Some i then formRefCnt (refAIGInfos t ! j) else 0) \<and>
          hasName (refAIGInfos t1 ! i) = hasName (refAIGInfos t ! i))"
proof -
  from run obtain p where p: "nodeIndex t par = Some p"
    by (cases "nodeIndex t par") (simp_all add: propagate_parent_def Let_def nodeIndex_def)
  with notj have pj: "p \<noteq> j" by simp
  from run p have len: "p < length (refAIGInfos t)"
    by (simp add: propagate_parent_def Let_def nodeIndex_def split: if_splits)
  have k: "aigIndexes t (if \<not> pol par then neg par else par) = Some p"
    using p by (simp add: nodeIndex_def)
  have "\<exists>X. t1 = t\<lparr>refAIGInfos := (refAIGInfos t)[p := X]\<rparr> \<and>
             formRefCnt X = formRefCnt (refAIGInfos t ! p) + formRefCnt (refAIGInfos t ! j) \<and>
             hasName X = hasName (refAIGInfos t ! p)"
    using run k len pj unfolding propagate_parent_def Let_def setInfo_def
    by (cases "isQuantifier G (refAIGs t ! j)") auto
  then obtain X where X: "t1 = t\<lparr>refAIGInfos := (refAIGInfos t)[p := X]\<rparr>"
      "formRefCnt X = formRefCnt (refAIGInfos t ! p) + formRefCnt (refAIGInfos t ! j)"
      "hasName X = hasName (refAIGInfos t ! p)"
    by blast
  show ?thesis using X len p by (simp add: nth_list_update)
qed

lemma propagate_counts:
  "propagate G j pars t = Inr t1 \<Longrightarrow> \<forall>par\<in>set pars. nodeIndex t par \<noteq> Some j \<Longrightarrow>
   refAIGs t1 = refAIGs t \<and> aigIndexes t1 = aigIndexes t \<and>
   namingRefCntThreshold t1 = namingRefCntThreshold t \<and> defs t1 = defs t \<and>
   newDefs t1 = newDefs t \<and>
   (\<forall>i. formRefCnt (refAIGInfos t1 ! i) =
          formRefCnt (refAIGInfos t ! i) +
          of_nat (length (filter (\<lambda>par. nodeIndex t par = Some i) pars)) *
            formRefCnt (refAIGInfos t ! j) \<and>
        hasName (refAIGInfos t1 ! i) = hasName (refAIGInfos t ! i))"
proof (induction pars arbitrary: t)
  case Nil
  then show ?case by simp
next
  case (Cons par pars)
  from Cons.prems(1) obtain t2 where t2: "propagate_parent G j par t = Inr t2"
      and rest: "propagate G j pars t2 = Inr t1"
    by (cases "propagate_parent G j par t") simp_all
  from Cons.prems(2) have notj: "nodeIndex t par \<noteq> Some j" by simp
  note a = propagate_parent_counts[OF t2 notj]
  from a have ni: "nodeIndex t2 = nodeIndex t" by (simp add: nodeIndex_def fun_eq_iff)
  have "\<forall>par\<in>set pars. nodeIndex t2 par \<noteq> Some j" using Cons.prems(2) ni by simp
  note b = Cons.IH[OF rest this]
  have cj: "formRefCnt (refAIGInfos t2 ! j) = formRefCnt (refAIGInfos t ! j)"
    using a notj by simp
  show ?case using a b ni cj by (auto simp: algebra_simps)
qed

text \<open>The naming step, in terms of the state the pass started from.\<close>

lemma name_node_effective:
  assumes run: "name_node G nameAig k t = Inr tn"
    and len: "k < length (refAIGInfos t)"
    and refs: "refAIGs t = refAIGs s" and thr: "namingRefCntThreshold t = namingRefCntThreshold s"
    and cnt: "formRefCnt (refAIGInfos t ! k) = accumulated G s k"
    and nmd: "hasName (refAIGInfos t ! k) = hasName (refAIGInfos s ! k)"
    and dfs: "defs t (refAIGs s ! k) = defs s (refAIGs s ! k)"
    and pos: "pol (refAIGs s ! k)"
  shows "refAIGs tn = refAIGs t \<and> aigIndexes tn = aigIndexes t \<and>
     namingRefCntThreshold tn = namingRefCntThreshold t \<and>
     length (refAIGInfos tn) = length (refAIGInfos t) \<and>
     formRefCnt (refAIGInfos tn ! k) = effective G s k \<and>
     hasName (refAIGInfos tn ! k) = (hasName (refAIGInfos s ! k) \<or> introduces G s k) \<and>
     (\<forall>i. i \<noteq> k \<longrightarrow> refAIGInfos tn ! i = refAIGInfos t ! i) \<and>
     (\<forall>b. b \<noteq> refAIGs s ! k \<longrightarrow> defs tn b = defs t b) \<and>
     (newDefs tn \<noteq> newDefs t) = introduces G s k \<and>
     map snd (newDefs tn) = (if introduces G s k then [refAIGs s ! k] else []) @ map snd (newDefs t)"
proof (cases "hasName (refAIGInfos t ! k)")
  case True
  let ?t0 = "setInfo k (\<lambda>ni. ni\<lparr>formRefCnt := 1\<rparr>) t"
  have h0: "hasName (refAIGInfos ?t0 ! k)" using True len by (simp add: setInfo_def)
  have "\<not> shouldIntroduceName G ?t0 k"
  proof
    assume "shouldIntroduceName G ?t0 k"
    then have "introduceName nameAig k ?t0 = Inr tn"
      using run True by (simp add: name_node_def)
    then show False using h0 by (simp add: introduceName_def Let_def)
  qed
  then have tn: "tn = ?t0" using run True by (simp add: name_node_def)
  have ni: "\<not> introduces G s k" using True nmd by (simp add: introduces_def)
  have ef: "effective G s k = 1" using True nmd by (simp add: effective_def)
  show ?thesis using tn ni ef True nmd len by (simp add: setInfo_def)
next
  case False
  then have ns: "\<not> hasName (refAIGInfos s ! k)" using nmd by simp
  have sh: "shouldIntroduceName G t k = introduces G s k"
    using ns refs thr cnt dfs
    by (auto simp: shouldIntroduceName_def introduces_def Let_def not_less)
  show ?thesis
  proof (cases "introduces G s k")
    case True
    then have "introduceName nameAig k t = Inr tn"
      using run False sh by (simp add: name_node_def)
    note r = introduceName_result[OF this]
    have ef: "effective G s k = 1" using True by (simp add: effective_def)
    from r have tn: "tn = (setInfo k (\<lambda>ni. ni\<lparr>formRefCnt := 1, hasName := True,
                              name := nameAig (freshPredicates t)\<rparr>)
                   (t\<lparr>freshPredicates := Suc (freshPredicates t)\<rparr>))
                \<lparr>defs := (defs t)(refAIGs s ! k \<mapsto> nameAig (freshPredicates t)),
                  defUnits := (defUnits t)(refAIGs s ! k \<mapsto> (nameAig (freshPredicates t), refAIGs s ! k)),
                  newDefs := (nameAig (freshPredicates t), refAIGs s ! k) # newDefs t\<rparr>"
      using pos refs by simp
    show ?thesis using True ef len by (simp add: tn setInfo_def)
  next
    case no: False
    then have tn: "tn = t" using run False sh by (simp add: name_node_def)
    have ef: "effective G s k = accumulated G s k" using no ns by (simp add: effective_def)
    show ?thesis using tn no ef cnt ns False by simp
  qed
qed

lemma process_node_reached:
  assumes w: "wellIndexed G s" and k: "k < length (refAIGs s)"
    and r: "reached G s (Suc k) t" and run: "process_node G nameAig k t = Inr t1"
  shows "reached G s k t1"
proof -
  let ?n = "length (refAIGs s)"
  let ?pars = "parents (G (nodeOf (refAIGs s ! k)))"
  let ?base = "\<lambda>i. formRefCnt (refAIGInfos s ! i) + of_nat (toplevelOccurrences s i)"
  let ?summand = "\<lambda>i j. of_nat (occurrences G s j i) * effective G s j"
  from r have refs: "refAIGs t = refAIGs s" and idx: "aigIndexes t = aigIndexes s"
    and thr: "namingRefCntThreshold t = namingRefCntThreshold s"
    and low: "\<And>i. i < Suc k \<Longrightarrow>
        formRefCnt (refAIGInfos t ! i) = ?base i + sum_list (map (?summand i) [Suc k..<?n]) \<and>
        hasName (refAIGInfos t ! i) = hasName (refAIGInfos s ! i) \<and>
        defs t (refAIGs s ! i) = defs s (refAIGs s ! i)"
    and high: "\<And>j. Suc k \<le> j \<Longrightarrow> j < ?n \<Longrightarrow>
        formRefCnt (refAIGInfos t ! j) = effective G s j \<and>
        hasName (refAIGInfos t ! j) = (hasName (refAIGInfos s ! j) \<or> introduces G s j)"
    and nd: "map snd (newDefs t) =
        map (\<lambda>j. refAIGs s ! j) (filter (introduces G s) [Suc k..<?n]) @ map snd (newDefs s)"
    unfolding reached_def by simp_all
  from w have pos: "\<And>j. j < ?n \<Longrightarrow> pol (refAIGs s ! j)"
    and at: "\<And>j. j < ?n \<Longrightarrow> aigIndexes s (refAIGs s ! j) = Some j"
    and par: "\<And>par. par \<in> set ?pars \<Longrightarrow> \<exists>p<k. nodeIndex s par = Some p"
    using k unfolding wellIndexed_def by blast+
  from run obtain tn where len: "k < length (refAIGInfos t)"
      and tn: "name_node G nameAig k t = Inr tn"
      and pr: "propagate G k (parents (G (nodeOf (refAIGs t ! k)))) tn = Inr t1"
    by (rule process_node_cases)
  have cnt: "formRefCnt (refAIGInfos t ! k) = accumulated G s k"
    using low[of k] by (simp add: accumulated_effective)
  note N = name_node_effective[OF tn len refs thr cnt _ _ pos[OF k]]
  have N': "refAIGs tn = refAIGs s" "aigIndexes tn = aigIndexes s"
    "namingRefCntThreshold tn = namingRefCntThreshold s"
    "formRefCnt (refAIGInfos tn ! k) = effective G s k"
    "hasName (refAIGInfos tn ! k) = (hasName (refAIGInfos s ! k) \<or> introduces G s k)"
    "\<And>i. i \<noteq> k \<Longrightarrow> refAIGInfos tn ! i = refAIGInfos t ! i"
    "\<And>b. b \<noteq> refAIGs s ! k \<Longrightarrow> defs tn b = defs t b"
    "map snd (newDefs tn) = (if introduces G s k then [refAIGs s ! k] else []) @ map snd (newDefs t)"
    using N low[of k] refs idx thr by simp_all
  have ni: "nodeIndex tn = nodeIndex s" using N'(2) by (simp add: nodeIndex_def fun_eq_iff)
  have notk: "\<forall>par\<in>set ?pars. nodeIndex tn par \<noteq> Some k"
    using par ni by fastforce
  have pr': "propagate G k ?pars tn = Inr t1" using pr refs by simp
  note P = propagate_counts[OF pr' notk]
  have P': "refAIGs t1 = refAIGs s" "aigIndexes t1 = aigIndexes s"
    "namingRefCntThreshold t1 = namingRefCntThreshold s" "defs t1 = defs tn"
    "newDefs t1 = newDefs tn"
    "\<And>i. formRefCnt (refAIGInfos t1 ! i) =
          formRefCnt (refAIGInfos tn ! i) + of_nat (occurrences G s k i) * effective G s k"
    "\<And>i. hasName (refAIGInfos t1 ! i) = hasName (refAIGInfos tn ! i)"
    using P N' ni by (simp_all add: occurrences_def)
  have up: "[k..<?n] = k # [Suc k..<?n]" using k by (rule upt_conv_Cons)
  have zero: "\<And>j. k \<le> j \<Longrightarrow> occurrences G s k j = 0"
  proof -
    fix j assume kj: "k \<le> j"
    have "\<And>par. par \<in> set ?pars \<Longrightarrow> nodeIndex s par \<noteq> Some j"
      using par kj by fastforce
    then show "occurrences G s k j = 0" by (simp add: occurrences_def)
  qed
  have lowk: "formRefCnt (refAIGInfos t1 ! i) = ?base i + sum_list (map (?summand i) [k..<?n]) \<and>
        hasName (refAIGInfos t1 ! i) = hasName (refAIGInfos s ! i) \<and>
        defs t1 (refAIGs s ! i) = defs s (refAIGs s ! i)" if i: "i < k" for i
  proof -
    have ik: "i \<noteq> k" using i by simp
    have "refAIGs s ! i \<noteq> refAIGs s ! k"
    proof
      assume "refAIGs s ! i = refAIGs s ! k"
      then have "aigIndexes s (refAIGs s ! i) = aigIndexes s (refAIGs s ! k)" by simp
      then show False using at[OF k] at[of i] i k by simp
    qed
    then have d: "defs t1 (refAIGs s ! i) = defs s (refAIGs s ! i)"
      using P'(4) N'(7) low[of i] i by simp
    have c: "formRefCnt (refAIGInfos t1 ! i) = ?base i + sum_list (map (?summand i) [k..<?n])"
      using P'(6)[of i] N'(6)[OF ik] low[of i] i by (simp add: up algebra_simps)
    have h: "hasName (refAIGInfos t1 ! i) = hasName (refAIGInfos s ! i)"
      using P'(7)[of i] N'(6)[OF ik] low[of i] i by simp
    show ?thesis using c h d by simp
  qed
  have highk: "formRefCnt (refAIGInfos t1 ! j) = effective G s j \<and>
        hasName (refAIGInfos t1 ! j) = (hasName (refAIGInfos s ! j) \<or> introduces G s j)"
    if j: "k \<le> j" "j < ?n" for j
  proof (cases "j = k")
    case True
    then show ?thesis using P'(6)[of k] P'(7)[of k] N'(4,5) zero[of k] by simp
  next
    case False
    then have "Suc k \<le> j" using j by simp
    then show ?thesis
      using P'(6)[of j] P'(7)[of j] N'(6)[OF False] high[of j] j zero[of j] by simp
  qed
  have ndk: "map snd (newDefs t1) =
        map (\<lambda>j. refAIGs s ! j) (filter (introduces G s) [k..<?n]) @ map snd (newDefs s)"
    using P'(5) N'(8) nd by (simp add: up)
  show ?thesis
    unfolding reached_def using P'(1,2,3) lowk highk ndk by blast
qed

lemma reverse_loop_until_reached:
  "k \<le> length (refAIGs s) \<Longrightarrow> wellIndexed G s \<Longrightarrow> reached G s k t \<Longrightarrow>
   reverse_loop_until G nameAig stop k t = Inr t' \<Longrightarrow>
   reached G s (if stop \<le> k then stop else 0) t'"
proof (induction k arbitrary: t)
  case 0
  then show ?case by simp
next
  case (Suc k)
  show ?case
  proof (cases "Suc k = stop")
    case True
    then have "t' = t" using Suc.prems(4) by auto
    then show ?thesis using Suc.prems(3) True by auto
  next
    case False
    with Suc.prems(4) obtain t1 where t1: "process_node G nameAig k t = Inr t1"
      and rest: "reverse_loop_until G nameAig stop k t1 = Inr t'"
      by (cases "process_node G nameAig k t") simp_all
    have "reached G s k t1"
      using process_node_reached[OF Suc.prems(2) _ Suc.prems(3) t1] Suc.prems(1) by simp
    from Suc.IH[OF _ Suc.prems(2) this rest] Suc.prems(1)
    have "reached G s (if stop \<le> k then stop else 0) t'" by simp
    then show ?thesis using False by (auto simp: le_Suc_eq)
  qed
qed

lemma reverse_loop_until_zero:
  "reverse_loop_until G nameAig 0 k t = reverse_loop G nameAig k t"
  by (induction k arbitrary: t) (simp_all split: sum.splits)

lemma count_toplevel_reached:
  assumes "count_toplevel (toplevelAIGs s) s = Inr s1"
  shows "reached G s (length (refAIGs s)) s1"
proof -
  let ?n = "length (refAIGs s)"
  note c = count_toplevel_counts[OF assms]
  have f: "\<And>i. formRefCnt (refAIGInfos s1 ! i) =
          formRefCnt (refAIGInfos s ! i) + of_nat (toplevelOccurrences s i)"
    "\<And>i. hasName (refAIGInfos s1 ! i) = hasName (refAIGInfos s ! i)"
    "defs s1 = defs s" "newDefs s1 = newDefs s"
    using c by (simp_all add: toplevelOccurrences_def)
  have g: "refAIGs s1 = refAIGs s" "aigIndexes s1 = aigIndexes s"
    "namingRefCntThreshold s1 = namingRefCntThreshold s"
    using c by simp_all
  have A: "\<forall>i<?n. formRefCnt (refAIGInfos s1 ! i) =
                formRefCnt (refAIGInfos s ! i) + of_nat (toplevelOccurrences s i) +
                sum_list (map (\<lambda>j. of_nat (occurrences G s j i) * effective G s j) [?n..<?n]) \<and>
             hasName (refAIGInfos s1 ! i) = hasName (refAIGInfos s ! i) \<and>
             defs s1 (refAIGs s ! i) = defs s (refAIGs s ! i)"
    using f by simp
  have B: "\<forall>j. ?n \<le> j \<and> j < ?n \<longrightarrow>
             formRefCnt (refAIGInfos s1 ! j) = effective G s j \<and>
             hasName (refAIGInfos s1 ! j) = (hasName (refAIGInfos s ! j) \<or> introduces G s j)"
    by auto
  have C: "map snd (newDefs s1) =
        map (\<lambda>j. refAIGs s ! j) (filter (introduces G s) [?n..<?n]) @ map snd (newDefs s)"
    using f(4) by simp
  show ?thesis
    unfolding reached_def using g A B C by (intro conjI) assumption+
qed

lemma before_node_reached:
  assumes "wellIndexed G s" and "i < length (refAIGs s)"
    and "before_node G nameAig i s = Inr t"
  shows "reached G s (Suc i) t"
proof -
  from assms(3) obtain s1 where top: "count_toplevel (toplevelAIGs s) s = Inr s1"
      and t: "reverse_loop_until G nameAig (Suc i) (length (refAIGs s1)) s1 = Inr t"
    unfolding before_node_def by (cases "count_toplevel (toplevelAIGs s) s") simp_all
  have r: "reached G s (length (refAIGs s)) s1" using top by (rule count_toplevel_reached)
  then have l: "length (refAIGs s1) = length (refAIGs s)" by (simp add: reached_def)
  from reverse_loop_until_reached[OF _ assms(1) r, of nameAig "Suc i" t] t l assms(2)
  show ?thesis by simp
qed

lemma doSecondRefAIGPass_reached:
  assumes "wellIndexed G s" and "doSecondRefAIGPass G nameAig s = Inr s'"
  shows "reached G s 0 s'"
proof -
  from assms(2) obtain s1 where top: "count_toplevel (toplevelAIGs s) s = Inr s1"
      and t: "reverse_loop G nameAig (length (refAIGs s1)) s1 = Inr s'"
    unfolding doSecondRefAIGPass_def by (cases "count_toplevel (toplevelAIGs s) s") simp_all
  have r: "reached G s (length (refAIGs s)) s1" using top by (rule count_toplevel_reached)
  then have l: "length (refAIGs s1) = length (refAIGs s)" by (simp add: reached_def)
  from reverse_loop_until_reached[OF _ assms(1) r, of nameAig 0 s'] t l
  show ?thesis by (simp add: reverse_loop_until_zero)
qed

text \<open>The pass at one node: the state in which the node is reached, the naming step there, and
  what the rest of the pass keeps.\<close>

lemma doSecondRefAIGPass_at_node:
  assumes pass: "doSecondRefAIGPass G nameAig s = Inr s'"
    and i: "i < length (refAIGs s)"
  obtains t tn where "before_node G nameAig i s = Inr t" "i < length (refAIGInfos t)"
    "name_node G nameAig i t = Inr tn" "keeps i s t" "keeps i tn s'"
proof -
  from pass obtain s1 where top: "count_toplevel (toplevelAIGs s) s = Inr s1"
      and loop: "reverse_loop G nameAig (length (refAIGs s1)) s1 = Inr s'"
    unfolding doSecondRefAIGPass_def
    by (cases "count_toplevel (toplevelAIGs s) s") simp_all
  have k1: "keeps i s s1" using top by (rule count_toplevel_keeps)
  then have len: "i < length (refAIGs s1)" using i by (simp add: keeps_def)
  from reverse_loop_split[OF len loop] obtain t
    where t: "reverse_loop_until G nameAig (Suc i) (length (refAIGs s1)) s1 = Inr t"
      and rest: "reverse_loop G nameAig (Suc i) t = Inr s'"
    by blast
  have before: "before_node G nameAig i s = Inr t"
    using top t by (simp add: before_node_def)
  have k2: "keeps i s1 t" using t by (rule reverse_loop_until_keeps)
  from rest obtain t1 where step: "process_node G nameAig i t = Inr t1"
      and tail: "reverse_loop G nameAig i t1 = Inr s'"
    by (cases "process_node G nameAig i t") simp_all
  from step obtain tn where ilen: "i < length (refAIGInfos t)"
      and tn: "name_node G nameAig i t = Inr tn"
      and pr: "propagate G i (parents (G (nodeOf (refAIGs t ! i)))) tn = Inr t1"
    by (rule process_node_cases)
  have k3: "keeps i tn s'"
    using propagate_keeps[OF pr] reverse_loop_keeps[OF tail] keeps_trans by blast
  have kt: "keeps i s t" using k1 k2 keeps_trans by blast
  show ?thesis using that[OF before ilen tn kt k3] .
qed

definition example_aig :: AIG where
  "example_aig n =
     (if n = 2 then \<lparr>kind = Conjunction, parents = [AIGRef 0 True, AIGRef 1 True]\<rparr>
      else if n = 3 then \<lparr>kind = Conjunction, parents = [AIGRef 2 True, AIGRef 0 True]\<rparr>
      else if n = 4 then \<lparr>kind = Conjunction, parents = [AIGRef 2 True, AIGRef 1 False]\<rparr>
      else \<lparr>kind = Atom, parents = []\<rparr>)"

definition example_name :: "nat \<Rightarrow> AIGRef" where
  "example_name k = AIGRef (100 + k) True"

definition firstPassInfo :: "u32 \<Rightarrow> NodeInfo" where
  "firstPassInfo n =
     \<lparr>directRefCnt = n, hasName = False, name = AIGRef 0 True, hasQuant = (\<lambda>b. False),
      inQuant = (\<lambda>b. False), inPol = (\<lambda>b. False), formRefCnt = 0\<rparr>"

definition example_introducer :: introducer where
  "example_introducer =
     AIGDefinitionIntroducer
       \<lparr>toplevelAIGs := [AIGRef 3 True, AIGRef 3 True, AIGRef 4 True, AIGRef 4 False],
        refAIGs := [AIGRef 0 True, AIGRef 1 True, AIGRef 2 True, AIGRef 3 True, AIGRef 4 True],
        aigIndexes := [AIGRef 0 True \<mapsto> 0, AIGRef 1 True \<mapsto> 1, AIGRef 2 True \<mapsto> 2,
                       AIGRef 3 True \<mapsto> 3, AIGRef 4 True \<mapsto> 4],
        refAIGInfos := [firstPassInfo 2, firstPassInfo 2, firstPassInfo 2, firstPassInfo 0,
                        firstPassInfo 0]\<rparr>"

lemmas example_defs =
  example_introducer_def AIGDefinitionIntroducer_def firstPassInfo_def neg_def setInfo_def Let_def
  process_node_def name_node_def shouldIntroduceName_def introduceName_def isPropConst_def
  isAtom_def isQuantifier_def example_aig_def example_name_def getPositive_def
  propagate_parent_def

lemma example_wellIndexed: "wellIndexed example_aig example_introducer"
  by (simp add: wellIndexed_def nodeIndex_def example_introducer_def AIGDefinitionIntroducer_def
        example_aig_def neg_def All_less_Suc)

lemma example_before:
  "\<exists>t. before_node example_aig example_name 2 example_introducer = Inr t \<and>
       formRefCnt (refAIGInfos t ! 2) = 4 \<and> newDefs t = []"
  by (simp add: before_node_def example_defs)

lemma example_pass:
  "\<exists>s'. doSecondRefAIGPass example_aig example_name example_introducer = Inr s' \<and>
        newDefs s' = [(AIGRef 100 True, AIGRef 2 True)] \<and>
        name (refAIGInfos s' ! 2) = AIGRef 100 True \<and>
        map (\<lambda>ni. formRefCnt ni) (refAIGInfos s') = [3, 3, 1, 2, 2]"
  by (simp add: doSecondRefAIGPass_def example_defs)

lemma example_upt: "[Suc 2..<5] = [3, 4]" "[Suc 3..<5] = [4]" "[Suc 4..<5] = []" "[0..<5] = [0, 1, 2, 3, 4]"
  by (simp_all add: upt_rec)

lemma example_fields:
  "length (refAIGs example_introducer) = 5" "namingRefCntThreshold example_introducer = 4"
  "refAIGs example_introducer ! 2 = AIGRef 2 True" "newDefs example_introducer = []"
  "refAIGs example_introducer ! 3 = AIGRef 3 True" "refAIGs example_introducer ! 4 = AIGRef 4 True"
  "refAIGs example_introducer ! 0 = AIGRef 0 True"
  "refAIGs example_introducer ! Suc 0 = AIGRef (Suc 0) True"
  "defs example_introducer = Map.empty"
  by (simp_all add: example_introducer_def AIGDefinitionIntroducer_def)

lemma example_infos:
  "refAIGInfos example_introducer ! 0 = firstPassInfo 2"
  "refAIGInfos example_introducer ! Suc 0 = firstPassInfo 2"
  "refAIGInfos example_introducer ! 2 = firstPassInfo 2"
  "refAIGInfos example_introducer ! 3 = firstPassInfo 0"
  "refAIGInfos example_introducer ! 4 = firstPassInfo 0"
  "hasName (firstPassInfo n) = False" "formRefCnt (firstPassInfo n) = 0"
  by (simp_all add: example_introducer_def AIGDefinitionIntroducer_def firstPassInfo_def)

lemma example_kinds:
  "isAtom example_aig (AIGRef 0 True)" "isAtom example_aig (AIGRef (Suc 0) True)"
  "\<not> isAtom example_aig (AIGRef 2 True)" "\<not> isPropConst example_aig (AIGRef 2 True)"
  "parents (example_aig 3) = [AIGRef 2 True, AIGRef 0 True]"
  "parents (example_aig 4) = [AIGRef 2 True, AIGRef 1 False]"
  by (simp_all add: example_aig_def isAtom_def isPropConst_def)

lemma example_nodeIndex:
  "nodeIndex example_introducer (AIGRef 0 True) = Some 0"
  "nodeIndex example_introducer (AIGRef (Suc 0) False) = Some (Suc 0)"
  "nodeIndex example_introducer (AIGRef 2 True) = Some 2"
  "nodeIndex example_introducer (AIGRef 3 True) = Some 3"
  "nodeIndex example_introducer (AIGRef 4 True) = Some 4"
  "nodeIndex example_introducer (AIGRef 4 False) = Some 4"
  by (simp_all add: nodeIndex_def example_introducer_def AIGDefinitionIntroducer_def neg_def)

lemma example_occurrences:
  "toplevelOccurrences example_introducer 4 = 2" "toplevelOccurrences example_introducer 3 = 2"
  "toplevelOccurrences example_introducer 2 = 0"
  "occurrences example_aig example_introducer 4 3 = 0"
  "occurrences example_aig example_introducer 3 2 = 1"
  "occurrences example_aig example_introducer 4 2 = 1"
proof -
  have t: "toplevelAIGs example_introducer = [AIGRef 3 True, AIGRef 3 True, AIGRef 4 True, AIGRef 4 False]"
    by (simp add: example_introducer_def AIGDefinitionIntroducer_def)
  show "toplevelOccurrences example_introducer 4 = 2" "toplevelOccurrences example_introducer 3 = 2"
    "toplevelOccurrences example_introducer 2 = 0"
    by (simp_all add: toplevelOccurrences_def t example_nodeIndex)
  show "occurrences example_aig example_introducer 4 3 = 0"
    "occurrences example_aig example_introducer 3 2 = 1"
    "occurrences example_aig example_introducer 4 2 = 1"
    by (simp_all add: occurrences_def example_fields example_kinds example_nodeIndex)
qed

lemma example_accumulated_4: "accumulated example_aig example_introducer 4 = 2"
  by (subst accumulated.simps)
     (simp add: example_fields example_upt example_infos example_occurrences)

lemma example_accumulated_3: "accumulated example_aig example_introducer 3 = 2"
  by (subst accumulated.simps)
     (simp add: example_fields example_upt example_infos example_occurrences)

lemma example_accumulated_2: "accumulated example_aig example_introducer 2 = 4"
  by (subst accumulated.simps)
     (simp add: example_fields example_upt example_infos example_occurrences
        example_accumulated_3 example_accumulated_4 word_le_nat_alt)

lemma example_introduces:
  "\<not> introduces example_aig example_introducer 0" "\<not> introduces example_aig example_introducer 1"
  "introduces example_aig example_introducer 2"
  "\<not> introduces example_aig example_introducer 3" "\<not> introduces example_aig example_introducer 4"
  by (simp_all add: introduces_def example_fields example_infos example_kinds
        example_accumulated_2 example_accumulated_3 example_accumulated_4 word_le_nat_alt)

text \<open>
  Claim C8. In the second pass of the definition introducer, started with a threshold that is
  not zero (the constructor sets 4) on the stack that \<open>doFirstRefAIGPass\<close> has indexed: every
  reference positive and at its index, the parents of a node at lower indices. Let \<open>t\<close> be the
  state in which the reverse loop reaches the node at index \<open>i\<close>. The formula reference count
  of the node in \<open>t\<close> is the accumulated count: its top-level occurrences and, for every
  occurrence as a parent of a node above it, the effective count of that node, which is 1 for
  a node with a name and the accumulated count otherwise. The iteration for \<open>i\<close> introduces a new
  definition exactly when the node is neither a propositional constant nor an atom, its count
  has reached the threshold, and it has no name yet. The introduction sets the count of the
  node to 1 and registers the new name for the node, and the rest of the pass keeps that entry.
  At the end of the pass the count of the node is its effective count, every node that met the
  conditions on its kind and on its count has a name, and the definitions introduced are those
  of the nodes that the accumulated counts of the graph select, the lowest index last pushed.
\<close>

theorem doSecondRefAIGPass_names:
  assumes pass: "doSecondRefAIGPass G nameAig s = Inr s'"
    and w: "wellIndexed G s"
    and i: "i < length (refAIGs s)"
    and thr: "namingRefCntThreshold s \<noteq> 0"
  shows "\<exists>t tn. before_node G nameAig i s = Inr t \<and> name_node G nameAig i t = Inr tn \<and>
           formRefCnt (refAIGInfos t ! i) = accumulated G s i \<and>
           ((newDefs tn \<noteq> newDefs t) = (qualifies G t i \<and> \<not> alreadyNamed t i)) \<and>
           ((newDefs tn \<noteq> newDefs t) = introduces G s i) \<and>
           (newDefs tn \<noteq> newDefs t \<longrightarrow>
              formRefCnt (refAIGInfos tn ! i) = 1 \<and>
              newDefs tn = (name (refAIGInfos s' ! i), refAIGs s ! i) # newDefs t \<and>
              hasName (refAIGInfos s' ! i) \<and>
              defs s' (refAIGs s ! i) = Some (name (refAIGInfos s' ! i))) \<and>
           (qualifies G t i \<longrightarrow> alreadyNamed s' i) \<and>
           formRefCnt (refAIGInfos s' ! i) = effective G s i \<and>
           map snd (newDefs s') =
             map (\<lambda>j. refAIGs s ! j) (filter (introduces G s) [0..<length (refAIGs s)]) @
             map snd (newDefs s)"
proof -
  from pass i obtain t tn where before: "before_node G nameAig i s = Inr t"
      and ilen: "i < length (refAIGInfos t)"
      and tn: "name_node G nameAig i t = Inr tn"
      and kt: "keeps i s t" and k3: "keeps i tn s'"
    by (rule doSecondRefAIGPass_at_node)
  from w i have pos: "pol (refAIGs s ! i)" by (simp add: wellIndexed_def)
  from kt have rt: "refAIGs t = refAIGs s"
    and tt: "namingRefCntThreshold t = namingRefCntThreshold s"
    by (simp_all add: keeps_def)
  have post: "pol (refAIGs t ! i)" using pos rt by simp
  have tt0: "namingRefCntThreshold t \<noteq> 0" using tt thr by simp
  note n = name_node_introduces[OF tn ilen tt0 post]
  have intro: "formRefCnt (refAIGInfos tn ! i) = 1 \<and>
              newDefs tn = (name (refAIGInfos s' ! i), refAIGs s ! i) # newDefs t \<and>
              hasName (refAIGInfos s' ! i) \<and>
              defs s' (refAIGs s ! i) = Some (name (refAIGInfos s' ! i))"
    if new: "newDefs tn \<noteq> newDefs t"
  proof -
    from n(2)[OF new] have c: "formRefCnt (refAIGInfos tn ! i) = 1"
      and h: "hasName (refAIGInfos tn ! i)"
      and nm: "name (refAIGInfos tn ! i) = nameAig (freshPredicates t)"
      and d: "defs tn (refAIGs t ! i) = Some (nameAig (freshPredicates t))"
      and nd: "newDefs tn = (nameAig (freshPredicates t), refAIGs t ! i) # newDefs t"
      by simp_all
    from k3 h have h': "hasName (refAIGInfos s' ! i)"
      and nm': "name (refAIGInfos s' ! i) = name (refAIGInfos tn ! i)"
      by (simp_all add: keeps_def)
    from k3 have "defs tn \<subseteq>\<^sub>m defs s'" by (simp add: keeps_def)
    with d have "defs s' (refAIGs t ! i) = Some (nameAig (freshPredicates t))"
      by (metis domI map_le_def)
    then show ?thesis using c h' nm' nm nd rt by simp
  qed
  have named: "alreadyNamed s' i" if q: "qualifies G t i"
    using keeps_alreadyNamed[OF k3 n(3)[OF q]] .
  have r: "reached G s (Suc i) t" using w i before by (rule before_node_reached)
  then have low: "formRefCnt (refAIGInfos t ! i) =
        formRefCnt (refAIGInfos s ! i) + of_nat (toplevelOccurrences s i) +
        sum_list (map (\<lambda>j. of_nat (occurrences G s j i) * effective G s j)
                    [Suc i..<length (refAIGs s)])"
      and hn: "hasName (refAIGInfos t ! i) = hasName (refAIGInfos s ! i)"
      and df: "defs t (refAIGs s ! i) = defs s (refAIGs s ! i)"
    unfolding reached_def by simp_all
  have cnt: "formRefCnt (refAIGInfos t ! i) = accumulated G s i"
    using low by (simp add: accumulated_effective)
  note e = name_node_effective[OF tn ilen rt tt cnt hn df pos]
  then have ie: "(newDefs tn \<noteq> newDefs t) = introduces G s i" by blast
  have r0: "reached G s 0 s'" using w pass by (rule doSecondRefAIGPass_reached)
  then have fin: "formRefCnt (refAIGInfos s' ! i) = effective G s i"
    and nds: "map snd (newDefs s') =
             map (\<lambda>j. refAIGs s ! j) (filter (introduces G s) [0..<length (refAIGs s)]) @
             map snd (newDefs s)"
    using i unfolding reached_def by simp_all
  show ?thesis using before tn cnt n(1) ie intro named fin nds by blast
qed

theorem doSecondRefAIGPass_names_witness:
  "wellIndexed example_aig example_introducer \<and>
   namingRefCntThreshold example_introducer = 4 \<and>
   accumulated example_aig example_introducer 2 = 4 \<and>
   (\<exists>s' t tn. doSecondRefAIGPass example_aig example_name example_introducer = Inr s' \<and>
      before_node example_aig example_name 2 example_introducer = Inr t \<and>
      name_node example_aig example_name 2 t = Inr tn \<and>
      formRefCnt (refAIGInfos t ! 2) = 4 \<and> newDefs t = [] \<and>
      newDefs tn = [(AIGRef 100 True, AIGRef 2 True)] \<and>
      formRefCnt (refAIGInfos tn ! 2) = 1 \<and>
      hasName (refAIGInfos s' ! 2) \<and>
      defs s' (AIGRef 2 True) = Some (AIGRef 100 True) \<and>
      formRefCnt (refAIGInfos s' ! 2) = 1 \<and>
      map snd (newDefs s') = [AIGRef 2 True] \<and>
      map (\<lambda>ni. formRefCnt ni) (refAIGInfos s') = [3, 3, 1, 2, 2])"
proof -
  have i: "2 < length (refAIGs example_introducer)" by (simp add: example_fields)
  have thr: "namingRefCntThreshold example_introducer \<noteq> 0" by (simp add: example_fields)
  from example_pass obtain s' where
    pass: "doSecondRefAIGPass example_aig example_name example_introducer = Inr s'"
    and nm: "name (refAIGInfos s' ! 2) = AIGRef 100 True"
    and counts: "map (\<lambda>ni. formRefCnt ni) (refAIGInfos s') = [3, 3, 1, 2, 2]"
    by auto
  from example_before obtain t0 where
    b0: "before_node example_aig example_name 2 example_introducer = Inr t0"
    and t0: "newDefs t0 = []"
    by blast
  note in2 = example_introduces(3)
  from doSecondRefAIGPass_names[OF pass example_wellIndexed i thr] obtain t tn where
    b: "before_node example_aig example_name 2 example_introducer = Inr t"
    and tn: "name_node example_aig example_name 2 t = Inr tn"
    and cnt: "formRefCnt (refAIGInfos t ! 2) = accumulated example_aig example_introducer 2"
    and iff: "(newDefs tn \<noteq> newDefs t) = introduces example_aig example_introducer 2"
    and intro: "newDefs tn \<noteq> newDefs t \<longrightarrow>
              formRefCnt (refAIGInfos tn ! 2) = 1 \<and>
              newDefs tn = (name (refAIGInfos s' ! 2), refAIGs example_introducer ! 2) # newDefs t \<and>
              hasName (refAIGInfos s' ! 2) \<and>
              defs s' (refAIGs example_introducer ! 2) = Some (name (refAIGInfos s' ! 2))"
    and fin: "formRefCnt (refAIGInfos s' ! 2) = effective example_aig example_introducer 2"
    and nds: "map snd (newDefs s') =
             map (\<lambda>j. refAIGs example_introducer ! j)
               (filter (introduces example_aig example_introducer)
                  [0..<length (refAIGs example_introducer)]) @
             map snd (newDefs example_introducer)"
    by blast
  from b b0 have eq: "t = t0" by simp
  from iff in2 have new: "newDefs tn \<noteq> newDefs t" by simp
  with intro have r: "formRefCnt (refAIGInfos tn ! 2) = 1"
      "newDefs tn = (name (refAIGInfos s' ! 2), AIGRef 2 True) # newDefs t"
      "hasName (refAIGInfos s' ! 2)"
      "defs s' (AIGRef 2 True) = Some (name (refAIGInfos s' ! 2))"
    by (simp_all add: example_fields)
  have ef: "effective example_aig example_introducer 2 = 1"
    using in2 by (simp add: effective_def)
  have nds': "map snd (newDefs s') = [AIGRef 2 True]"
    using nds example_introduces by (simp add: example_fields example_upt)
  show ?thesis
    using example_wellIndexed example_fields(2) example_accumulated_2 pass b tn cnt t0 r nm eq
      fin ef nds' counts
    by simp
qed

end
